theory Spec2Isabelle
  imports Complex_Main "HOL-Library.Sublist"
begin

section \<open>Configuration data (nanocrew.config.schema)\<close>

text \<open>
  An \<open>AgentDefinition\<close> carries the seven fields the registry compares on reload.
  A \<open>Config\<close> holds the agent registry (a dict from agent name to definition) and the
  session bindings (a dict from session key to agent name); the other top-level parts of
  the configuration document (providers, channels, tools) are not touched by the code
  modelled here.
\<close>

record agent_definition =
  workspace :: string
  model :: string
  temperature :: real
  max_tokens :: int
  max_tool_iterations :: int
  memory_window :: int
  system_prompt :: string

record config =
  registry :: "string \<rightharpoonup> agent_definition"
  bindings :: "string \<rightharpoonup> string"

section \<open>Loading the configuration (nanocrew/config/loader.py)\<close>

text \<open>
  The exceptions that can leave the body of \<open>load_config\<close>. \<open>JSONDecodeError\<close>,
  \<open>UnicodeDecodeError\<close> and pydantic's \<open>ValidationError\<close> are subclasses of Python's
  \<open>ValueError\<close>; the others are not.
\<close>

datatype exn =
    JSONDecodeError
  | UnicodeDecodeError
  | ValidationError
  | OSError
  | AttributeError
  | TypeError
  | KeyError
  | RuntimeError

fun is_ValueError :: "exn \<Rightarrow> bool" where
  "is_ValueError JSONDecodeError = True"
| "is_ValueError UnicodeDecodeError = True"
| "is_ValueError ValidationError = True"
| "is_ValueError OSError = False"
| "is_ValueError AttributeError = False"
| "is_ValueError TypeError = False"
| "is_ValueError KeyError = False"
| "is_ValueError RuntimeError = False"

text \<open>
  What the config file on disk does when it is opened, parsed by \<open>json.load\<close>, migrated
  and validated by \<open>Config.model_validate\<close>: one of these steps raises, or the validated
  configuration comes out. The file system is either without the file, or holds it with
  its modification time.
\<close>

datatype file_content = Raises exn | Valid config

datatype disk = NoFile | File real file_content

text \<open>
  \<open>load_config\<close>: a missing file gives the default configuration \<open>Config()\<close> (the
  parameter \<open>dflt\<close>; the schema's defaults are not part of the sources at hand). Inside
  the \<open>try\<close>, a \<open>JSONDecodeError\<close> or any other \<open>ValueError\<close> is caught, a warning is
  printed and control falls through to \<open>return Config()\<close>; any other exception leaves
  the function.
\<close>

fun load_config :: "config \<Rightarrow> disk \<Rightarrow> exn + config" where
  "load_config dflt NoFile = Inr dflt"
| "load_config dflt (File m (Raises e)) = (if is_ValueError e then Inr dflt else Inl e)"
| "load_config dflt (File m (Valid c)) = Inr c"

section \<open>The agent registry (nanocrew/agent/registry.py)\<close>

record registry_state =
  rconfig :: config
  last_mtime :: real
  last_agents :: "string set"

text \<open>
  The arguments of one scheduled \<open>_emit_changes\<close> task: the added and removed name sets,
  the dict of updated names with their changed fields, and the new configuration.
\<close>

record emit_task =
  added :: "string set"
  removed :: "string set"
  updated :: "string \<rightharpoonup> string list"
  task_config :: config

text \<open>\<open>_get_config_mtime\<close>: the file's \<open>st_mtime\<close>, or 0 when \<open>stat\<close> raises.\<close>

fun get_config_mtime :: "disk \<Rightarrow> real" where
  "get_config_mtime NoFile = 0"
| "get_config_mtime (File m c) = m"

text \<open>
  The inner loop of \<open>_detect_updates\<close>: the names of the fields, in the order of
  \<open>fields_to_check\<close>, whose values differ between the old and the new definition.
\<close>

definition changed_fields :: "agent_definition \<Rightarrow> agent_definition \<Rightarrow> string list" where
  "changed_fields old_def new_def =
     (if workspace old_def \<noteq> workspace new_def then [''workspace''] else []) @
     (if model old_def \<noteq> model new_def then [''model''] else []) @
     (if temperature old_def \<noteq> temperature new_def then [''temperature''] else []) @
     (if max_tokens old_def \<noteq> max_tokens new_def then [''max_tokens''] else []) @
     (if max_tool_iterations old_def \<noteq> max_tool_iterations new_def
      then [''max_tool_iterations''] else []) @
     (if memory_window old_def \<noteq> memory_window new_def then [''memory_window''] else []) @
     (if system_prompt old_def \<noteq> system_prompt new_def then [''system_prompt''] else [])"

text \<open>
  \<open>_detect_updates\<close>: for every common name the old definition is read from the
  in-memory config and the new one from the new config, both by subscript, so a name
  missing from either dict raises \<open>KeyError\<close>. A name is entered in the result only when
  its list of changed fields is not empty.
\<close>

definition detect_updates ::
  "registry_state \<Rightarrow> config \<Rightarrow> string set \<Rightarrow> exn + (string \<rightharpoonup> string list)" where
  "detect_updates s new_config common_agents =
     (if \<exists>n \<in> common_agents. registry (rconfig s) n = None \<or> registry new_config n = None
      then Inl KeyError
      else Inr (\<lambda>n. if n \<in> common_agents
                     then (case (registry (rconfig s) n, registry new_config n) of
                             (Some old_def, Some new_def) \<Rightarrow>
                               (if changed_fields old_def new_def = [] then None
                                else Some (changed_fields old_def new_def))
                           | _ \<Rightarrow> None)
                     else None))"

text \<open>
  \<open>_check_reload\<close>. The result is the returned flag, the registry state afterwards and
  the emission task handed to the running event loop, if any: \<open>loop_running\<close> is whether
  \<open>asyncio.get_running_loop()\<close> succeeds in the calling thread; when it raises
  \<open>RuntimeError\<close> no task is created. Every exception inside the outer \<open>try\<close> is caught,
  logged, and answered with \<open>False\<close>, the state untouched.
\<close>

definition check_reload ::
  "config \<Rightarrow> bool \<Rightarrow> disk \<Rightarrow> registry_state \<Rightarrow> bool \<times> registry_state \<times> emit_task option" where
  "check_reload dflt loop_running d s =
     (let current_mtime = get_config_mtime d in
      if current_mtime \<le> last_mtime s then (False, s, None)
      else
        (case load_config dflt d of
           Inl e \<Rightarrow> (False, s, None)
         | Inr new_config \<Rightarrow>
             (let old_agents = last_agents s;
                  new_agents = dom (registry new_config);
                  added_names = new_agents - old_agents;
                  removed_names = old_agents - new_agents
              in case detect_updates s new_config (old_agents \<inter> new_agents) of
                   Inl e \<Rightarrow> (False, s, None)
                 | Inr updated_names \<Rightarrow>
                     (True,
                      s\<lparr>rconfig := new_config, last_mtime := current_mtime,
                        last_agents := new_agents\<rparr>,
                      if loop_running
                      then Some \<lparr>added = added_names, removed = removed_names,
                                 updated = updated_names, task_config = new_config\<rparr>
                      else None))))"

text \<open>
  \<open>AgentRegistry.__init__\<close>: the given config (or the loaded one), mtime 0, the name set
  of that config, then one \<open>_check_reload\<close>.
\<close>

definition registry_init ::
  "config \<Rightarrow> bool \<Rightarrow> disk \<Rightarrow> config option \<Rightarrow> exn + registry_state" where
  "registry_init dflt loop_running d given =
     (case (case given of Some c \<Rightarrow> Inr c | None \<Rightarrow> load_config dflt d) of
        Inl e \<Rightarrow> Inl e
      | Inr c \<Rightarrow>
          Inr (fst (snd (check_reload dflt loop_running d
                 \<lparr>rconfig = c, last_mtime = 0, last_agents = dom (registry c)\<rparr>))))"

text \<open>
  \<open>get_agent_name_for_session\<close>: reload check first, then the binding of the session
  key; a truthy (non-empty) bound name is returned as it is, anything else gives "main".
\<close>

definition get_agent_name_for_session ::
  "config \<Rightarrow> bool \<Rightarrow> disk \<Rightarrow> registry_state \<Rightarrow> string \<Rightarrow> string \<times> registry_state" where
  "get_agent_name_for_session dflt loop_running d s session_key =
     (let s' = fst (snd (check_reload dflt loop_running d s)) in
      (case bindings (rconfig s') session_key of
         Some agent_name \<Rightarrow> if agent_name \<noteq> [] then agent_name else ''main''
       | None \<Rightarrow> ''main'',
       s'))"

text \<open>\<open>list_agents\<close>: reload check first, then a copy of the registry dict.\<close>

definition list_agents ::
  "config \<Rightarrow> bool \<Rightarrow> disk \<Rightarrow> registry_state \<Rightarrow> (string \<rightharpoonup> agent_definition) \<times> registry_state" where
  "list_agents dflt loop_running d s =
     (let s' = fst (snd (check_reload dflt loop_running d s)) in (registry (rconfig s'), s'))"

section \<open>Lifecycle events (nanocrew/config/events.py)\<close>

text \<open>
  The payloads of the three lifecycle events and the \<open>Event\<close> dataclass of the bus
  (a topic name and the data, of any type). The added payload carries the agent name, its workspace
  path and the dumped definition.
\<close>

datatype event_data =
    AgentAddedData string string agent_definition
  | AgentRemovedData string
  | AgentUpdatedData string "string list"

datatype 'a event = Event (event_name: string) (event_data: 'a)







text \<open>
  The update set as the specification words it: the names present in both the old and
  the new registry for which at least one of the seven canonical fields differs.
\<close>

definition fields_differ :: "agent_definition \<Rightarrow> agent_definition \<Rightarrow> bool" where
  "fields_differ a b \<longleftrightarrow>
     workspace a \<noteq> workspace b \<or> model a \<noteq> model b \<or> temperature a \<noteq> temperature b \<or>
     max_tokens a \<noteq> max_tokens b \<or> max_tool_iterations a \<noteq> max_tool_iterations b \<or>
     memory_window a \<noteq> memory_window b \<or> system_prompt a \<noteq> system_prompt b"


section \<open>The event bus (nanocrew/utils/events.py)\<close>

text \<open>
  The subscriber table maps a topic to its handlers in subscription order. Handlers are
  values of any type \<open>'h\<close>, compared by equality as \<open>unsubscribe\<close> compares them.
\<close>

type_synonym 'h subscribers = "string \<rightharpoonup> 'h list"

definition subscribe :: "'h subscribers \<Rightarrow> string \<Rightarrow> 'h \<Rightarrow> 'h subscribers" where
  "subscribe bus topic handler =
     bus(topic \<mapsto> (case bus topic of None \<Rightarrow> [] | Some hs \<Rightarrow> hs) @ [handler])"

definition unsubscribe :: "'h subscribers \<Rightarrow> string \<Rightarrow> 'h \<Rightarrow> 'h subscribers" where
  "unsubscribe bus topic handler =
     (case bus topic of
        None \<Rightarrow> bus
      | Some hs \<Rightarrow>
          (if filter (\<lambda>h. h \<noteq> handler) hs = [] then bus(topic := None)
           else bus(topic \<mapsto> filter (\<lambda>h. h \<noteq> handler) hs)))"

text \<open>
  What awaiting a called coroutine (a handler on an event, an invalidator on a path)
  ends with: it returns; it raises an instance of Python's \<open>Exception\<close> (of type \<open>'e\<close>);
  it raises a \<open>BaseException\<close> that is not an \<open>Exception\<close>, such as
  \<open>asyncio.CancelledError\<close>; or it raises \<open>SystemExit\<close> or \<open>KeyboardInterrupt\<close>, which
  asyncio re-raises out of the running event loop.
\<close>

datatype 'e outcome = Returned | Raised 'e | RaisedBase | RaisedExit

text \<open>\<open>_safe_call\<close> awaits the handler and catches nothing.\<close>

definition safe_call :: "('h \<Rightarrow> 'a event \<Rightarrow> 'e outcome) \<Rightarrow> 'h \<Rightarrow> 'a event \<Rightarrow> 'e outcome" where
  "safe_call run handler ev = run handler ev"

text \<open>
  \<open>asyncio.gather\<close> wraps every awaitable in a task; the tasks start in the order of the
  list. A task that raises \<open>SystemExit\<close> or \<open>KeyboardInterrupt\<close> (here: in its first step)
  stops the event loop, so the tasks after it never start and the caller of \<open>gather\<close> is
  never resumed. The result is the handlers that were started, their outcomes, and
  whether the loop was stopped.
\<close>

fun start_all ::
  "('h \<Rightarrow> 'a event \<Rightarrow> 'e outcome) \<Rightarrow> 'a event \<Rightarrow> 'h list \<Rightarrow> 'h list \<times> 'e outcome list \<times> bool" where
  "start_all run ev [] = ([], [], False)"
| "start_all run ev (h # hs) =
     (case safe_call run h ev of
        RaisedExit \<Rightarrow> ([h], [RaisedExit], True)
      | r \<Rightarrow> (case start_all run ev hs of
                (started, results, exited) \<Rightarrow> (h # started, r # results, exited)))"

text \<open>
  What \<open>gather\<close> hands to its caller once all tasks are done: with
  \<open>return_exceptions=True\<close> every outcome is put in the result list, in the order of the
  awaitables, an exception in place of the value; otherwise the exception of a task
  that raised is raised to the caller.
\<close>

fun first_raised :: "'e outcome list \<Rightarrow> 'e outcome option" where
  "first_raised [] = None"
| "first_raised (Returned # rs) = first_raised rs"
| "first_raised (r # rs) = Some r"

definition gather :: "bool \<Rightarrow> 'e outcome list \<Rightarrow> 'e outcome + 'e outcome list" where
  "gather return_exceptions results =
     (if return_exceptions then Inr results
      else (case first_raised results of None \<Rightarrow> Inr results | Some r \<Rightarrow> Inl r))"

text \<open>
  The loop after \<open>gather\<close>: one log line per result that is an instance of \<open>Exception\<close>,
  made of the handler's name (\<open>handler_name\<close> is
  \<open>getattr(handler, "__name__", str(handler))\<close>), the topic and the exception. A result
  that is a \<open>CancelledError\<close> is not an instance of \<open>Exception\<close> and is passed over.
\<close>

fun log_failures ::
  "('h \<Rightarrow> string) \<Rightarrow> string \<Rightarrow> 'h list \<Rightarrow> 'e outcome list \<Rightarrow> (string \<times> string \<times> 'e) list" where
  "log_failures handler_name topic (h # hs) (Raised e # rs) =
     (handler_name h, topic, e) # log_failures handler_name topic hs rs"
| "log_failures handler_name topic (h # hs) (r # rs) =
     log_failures handler_name topic hs rs"
| "log_failures handler_name topic hs rs = []"

text \<open>
  \<open>publish\<close>: the handlers are the copy of the topic's list taken under the lock. The
  result records the handlers that were called, the failures logged, what was raised to
  the caller of \<open>publish\<close>, if anything, and whether the event loop was stopped before
  \<open>publish\<close> could go on.
\<close>

record ('h, 'e) published =
  invoked :: "'h list"
  logged :: "(string \<times> string \<times> 'e) list"
  propagated :: "'e outcome option"
  loop_exited :: bool

definition publish ::
  "('h \<Rightarrow> string) \<Rightarrow> ('h \<Rightarrow> 'a event \<Rightarrow> 'e outcome) \<Rightarrow> 'h subscribers \<Rightarrow> 'a event
     \<Rightarrow> ('h, 'e) published" where
  "publish handler_name run bus ev =
     (let handlers = (case bus (event_name ev) of None \<Rightarrow> [] | Some hs \<Rightarrow> hs) in
      if handlers = []
      then \<lparr>invoked = [], logged = [], propagated = None, loop_exited = False\<rparr>
      else
        (case start_all run ev handlers of
           (started, results, True) \<Rightarrow>
             \<lparr>invoked = started, logged = [], propagated = None, loop_exited = True\<rparr>
         | (started, results, False) \<Rightarrow>
             (case gather True results of
                Inl r \<Rightarrow>
                  \<lparr>invoked = started, logged = [], propagated = Some r, loop_exited = False\<rparr>
              | Inr rs \<Rightarrow>
                  \<lparr>invoked = started,
                   logged = log_failures handler_name (event_name ev) handlers rs,
                   propagated = None, loop_exited = False\<rparr>)))"


section \<open>Key conversion (nanocrew/config/loader.py)\<close>

text \<open>
  A JSON document as \<open>json.load\<close> builds it, over characters of type \<open>'c\<close>. A dict is the
  list of its items in insertion order; in a Python dict no key occurs twice.
\<close>

datatype 'c json =
    JNull
  | JBool bool
  | JInt int
  | JFloat real
  | JStr "'c list"
  | JArr "'c json list"
  | JObj "('c list \<times> 'c json) list"

text \<open>
  \<open>result[k] = v\<close> on a dict: an existing key keeps its place and takes the new value, a
  new key is appended.
\<close>

fun dict_set :: "('k \<times> 'v) list \<Rightarrow> 'k \<Rightarrow> 'v \<Rightarrow> ('k \<times> 'v) list" where
  "dict_set [] k v = [(k, v)]"
| "dict_set ((k', v') # kvs) k v =
     (if k' = k then (k, v) # kvs else (k', v') # dict_set kvs k v)"

text \<open>The dict that assigning the items one after the other to an empty dict builds.\<close>

definition dict_of_items :: "('k \<times> 'v) list \<Rightarrow> ('k \<times> 'v) list" where
  "dict_of_items items = foldl (\<lambda>result kv. dict_set result (fst kv) (snd kv)) [] items"

text \<open>
  The converters call methods of Python's \<open>str\<close> whose tables are not part of the
  repository: \<open>char.isupper()\<close>, \<open>char.lower()\<close> (the lowered character can be more than
  one character long) and \<open>x.title()\<close>. They are parameters of the model, together with
  the two characters the code names, the colon and the underscore.
\<close>

record 'c str_methods =
  colon :: 'c
  underscore :: 'c
  isupper :: "'c \<Rightarrow> bool"
  lower :: "'c \<Rightarrow> 'c list"
  title :: "'c list \<Rightarrow> 'c list"

text \<open>
  \<open>camel_to_snake\<close>: an underscore goes before every upper-case character but the one
  at index 0, and every character is lowered. The second argument is the index.
\<close>

fun camel_to_snake_from :: "'c str_methods \<Rightarrow> nat \<Rightarrow> 'c list \<Rightarrow> 'c list" where
  "camel_to_snake_from u i [] = []"
| "camel_to_snake_from u i (c # cs) =
     (if isupper u c \<and> i > 0 then [underscore u] else []) @ lower u c @
     camel_to_snake_from u (Suc i) cs"

definition camel_to_snake :: "'c str_methods \<Rightarrow> 'c list \<Rightarrow> 'c list" where
  "camel_to_snake u name = camel_to_snake_from u 0 name"

text \<open>\<open>str.split(sep)\<close> for a one-character separator: never an empty list.\<close>

fun split :: "'c \<Rightarrow> 'c list \<Rightarrow> 'c list list" where
  "split sep [] = [[]]"
| "split sep (c # cs) =
     (if c = sep then [] # split sep cs
      else (case split sep cs of
              [] \<Rightarrow> [[c]]
            | w # ws \<Rightarrow> (c # w) # ws))"

text \<open>
  \<open>snake_to_camel\<close>: the first component as it is, the others titled, all joined.
\<close>

definition snake_to_camel :: "'c str_methods \<Rightarrow> 'c list \<Rightarrow> 'c list" where
  "snake_to_camel u name =
     (case split (underscore u) name of
        [] \<Rightarrow> []
      | first # others \<Rightarrow> first @ concat (map (title u) others))"

text \<open>
  \<open>convert_keys\<close> and \<open>convert_to_camel\<close>: in a dict, a key that contains a colon is
  assigned as it is and any other key is converted; the values, and the items of a list,
  are converted recursively; anything else is returned as it is.
\<close>

definition has_colon :: "'c str_methods \<Rightarrow> 'c list \<Rightarrow> bool" where
  "has_colon u k \<longleftrightarrow> colon u \<in> set k"

fun convert_keys :: "'c str_methods \<Rightarrow> 'c json \<Rightarrow> 'c json" where
  "convert_keys u (JObj kvs) =
     JObj (dict_of_items
       (map (\<lambda>(k, v). (if has_colon u k then k else camel_to_snake u k, convert_keys u v)) kvs))"
| "convert_keys u (JArr items) = JArr (map (convert_keys u) items)"
| "convert_keys u data = data"

fun convert_to_camel :: "'c str_methods \<Rightarrow> 'c json \<Rightarrow> 'c json" where
  "convert_to_camel u (JObj kvs) =
     JObj (dict_of_items
       (map (\<lambda>(k, v). (if has_colon u k then k else snake_to_camel u k, convert_to_camel u v)) kvs))"
| "convert_to_camel u (JArr items) = JArr (map (convert_to_camel u) items)"
| "convert_to_camel u data = data"

text \<open>
  The key under which \<open>convert_keys\<close>, and \<open>convert_to_camel\<close>, assigns the value of the
  key \<open>k\<close> of a dict.
\<close>

definition snake_key :: "'c str_methods \<Rightarrow> 'c list \<Rightarrow> 'c list" where
  "snake_key u k = (if has_colon u k then k else camel_to_snake u k)"

definition camel_key :: "'c str_methods \<Rightarrow> 'c list \<Rightarrow> 'c list" where
  "camel_key u k = (if has_colon u k then k else snake_to_camel u k)"

text \<open>\<open>d.get(k)\<close> on a dict given by its items.\<close>

definition dict_get :: "('k \<times> 'v) list \<Rightarrow> 'k \<Rightarrow> 'v option" where
  "dict_get kvs k = map_of kvs k"

text \<open>
  A place in a document is reached by a path of selectors, \<open>data[k]\<close> on a dict and
  \<open>data[i]\<close> on a list. \<open>lookup\<close> gives what is at the end of a path, if the path exists
  in the document. \<open>converted_path\<close> is the path with every key replaced by the key a
  converter assigns it to.
\<close>

datatype 'c selector = Key "'c list" | Index nat

fun lookup :: "'c json \<Rightarrow> 'c selector list \<Rightarrow> 'c json option" where
  "lookup data [] = Some data"
| "lookup (JObj kvs) (Key k # path) =
     (case dict_get kvs k of None \<Rightarrow> None | Some v \<Rightarrow> lookup v path)"
| "lookup (JArr items) (Index i # path) =
     (if i < length items then lookup (items ! i) path else None)"
| "lookup data (s # path) = None"

fun converted_selector :: "('c list \<Rightarrow> 'c list) \<Rightarrow> 'c selector \<Rightarrow> 'c selector" where
  "converted_selector ck (Key k) = Key (ck k)"
| "converted_selector ck (Index i) = Index i"

definition converted_path :: "('c list \<Rightarrow> 'c list) \<Rightarrow> 'c selector list \<Rightarrow> 'c selector list" where
  "converted_path ck path = map (converted_selector ck) path"

text \<open>
  A document is a value in which no dict, at any depth, has a key twice. A path is
  unambiguous in a document, for a conversion of keys, if in no dict on the path another
  key is converted to the same key as the key the path takes.
\<close>

fun is_document :: "'c json \<Rightarrow> bool" where
  "is_document (JObj kvs) \<longleftrightarrow> distinct (map fst kvs) \<and> list_all is_document (map snd kvs)"
| "is_document (JArr items) \<longleftrightarrow> list_all is_document items"
| "is_document data \<longleftrightarrow> True"

fun unambiguous :: "('c list \<Rightarrow> 'c list) \<Rightarrow> 'c json \<Rightarrow> 'c selector list \<Rightarrow> bool" where
  "unambiguous ck data [] \<longleftrightarrow> True"
| "unambiguous ck (JObj kvs) (Key k # path) \<longleftrightarrow>
     list_all (\<lambda>k'. ck k' = ck k \<longrightarrow> k' = k) (map fst kvs) \<and>
     (case dict_get kvs k of None \<Rightarrow> True | Some v \<Rightarrow> unambiguous ck v path)"
| "unambiguous ck (JArr items) (Index i # path) \<longleftrightarrow>
     (i < length items \<longrightarrow> unambiguous ck (items ! i) path)"
| "unambiguous ck data (s # path) \<longleftrightarrow> True"

text \<open>The keys of all dicts of a document, at every depth.\<close>

fun all_keys :: "'c json \<Rightarrow> 'c list set" where
  "all_keys (JObj kvs) = fst ` set kvs \<union> (\<Union>kv \<in> set kvs. all_keys (snd kv))"
| "all_keys (JArr items) = (\<Union>d \<in> set items. all_keys d)"
| "all_keys data = {}"

text \<open>
  What Python's tables have to satisfy for the converters to keep apart the keys with a
  colon from the others: lowering a character that is not a colon gives no colon, and
  neither does titling a string without a colon. (Both hold of the Unicode case
  mappings.)
\<close>

definition colon_safe :: "'c str_methods \<Rightarrow> bool" where
  "colon_safe u \<longleftrightarrow>
     underscore u \<noteq> colon u \<and>
     (\<forall>c. c \<noteq> colon u \<longrightarrow> colon u \<notin> set (lower u c)) \<and>
     (\<forall>s. colon u \<notin> set s \<longrightarrow> colon u \<notin> set (title u s))"

text \<open>
  The methods on ASCII text, used in the examples: \<open>isupper\<close> holds of \<open>A\<close> to \<open>Z\<close>,
  \<open>islower\<close> of \<open>a\<close> to \<open>z\<close>, \<open>lower\<close> and \<open>upper\<close> shift by 32, and \<open>title\<close>
  upper-cases a cased character when the character before it is not cased and lowers
  it when it is (the first argument of \<open>ascii_title_from\<close> is whether the previous
  character was cased).
\<close>

definition ascii_isupper :: "char \<Rightarrow> bool" where
  "ascii_isupper c \<longleftrightarrow> 65 \<le> (of_char c :: nat) \<and> (of_char c :: nat) \<le> 90"

definition ascii_islower :: "char \<Rightarrow> bool" where
  "ascii_islower c \<longleftrightarrow> 97 \<le> (of_char c :: nat) \<and> (of_char c :: nat) \<le> 122"

definition ascii_lower :: "char \<Rightarrow> char" where
  "ascii_lower c = (if ascii_isupper c then char_of (of_char c + (32 :: nat)) else c)"

definition ascii_upper :: "char \<Rightarrow> char" where
  "ascii_upper c = (if ascii_islower c then char_of (of_char c - (32 :: nat)) else c)"

fun ascii_title_from :: "bool \<Rightarrow> string \<Rightarrow> string" where
  "ascii_title_from previous_is_cased [] = []"
| "ascii_title_from previous_is_cased (c # cs) =
     (if ascii_islower c \<or> ascii_isupper c
      then (if previous_is_cased then ascii_lower c else ascii_upper c) # ascii_title_from True cs
      else c # ascii_title_from False cs)"

definition ascii_title :: "string \<Rightarrow> string" where
  "ascii_title s = ascii_title_from False s"

definition ascii_methods :: "char str_methods" where
  "ascii_methods =
     \<lparr>colon = CHR '':'', underscore = CHR ''_'', isupper = ascii_isupper,
      lower = (\<lambda>c. [ascii_lower c]), title = ascii_title\<rparr>"

section \<open>The file cache (nanocrew/utils/file_cache.py)\<close>

text \<open>
  Paths are strings. A cache entry is the \<open>CacheEntry\<close> dataclass. A file on disk has a
  modification time and either text that decodes as UTF-8 or content whose reading
  fails.
\<close>

record cache_entry =
  mtime :: real
  content :: string

datatype disk_file = Text real string | Undecodable real

fun file_mtime :: "disk_file \<Rightarrow> real" where
  "file_mtime (Text m s) = m"
| "file_mtime (Undecodable m) = m"

text \<open>
  Each call of \<open>invalidate\<close> creates one asyncio task running \<open>_do_invalidate\<close>. Such a
  task first sleeps until its deadline. Its body then suspends only where it awaits an
  invalidator: in \<open>Notifying k\<close> it is suspended in the call of the invalidator at index
  \<open>k\<close> of the list. It is \<open>Cancelled\<close> once a \<open>CancelledError\<close> (or another exception its
  \<open>except Exception\<close> does not catch) has ended it, and \<open>Done\<close> once it ran to its end.
  Time is counted in milliseconds.
\<close>

datatype task_status = Sleeping | Notifying nat | Cancelled | Done

record debounce_task =
  task_path :: string
  deadline :: nat
  status :: task_status

text \<open>
  The cache object together with the tasks it created (a task's identity is its index
  in \<open>tasks\<close>), the clock, and the record of every \<open>invalidator.invalidate(path)\<close> call
  made (the invalidator, the path, and the deadline of the task that made the call) and
  of every failure logged.
\<close>

record 'i file_cache =
  entries :: "string \<rightharpoonup> cache_entry"
  debounce_ms :: nat
  pending_invalidations :: "string \<rightharpoonup> nat"
  invalidators :: "'i list"
  tasks :: "debounce_task list"
  now :: nat
  notified :: "('i \<times> string \<times> nat) list"
  failed :: "('i \<times> string) list"

definition new_file_cache :: "nat \<Rightarrow> 'i file_cache" where
  "new_file_cache ms =
     \<lparr>entries = Map.empty, debounce_ms = ms, pending_invalidations = Map.empty,
      invalidators = [], tasks = [], now = 0, notified = [], failed = []\<rparr>"

definition register_invalidator :: "'i file_cache \<Rightarrow> 'i \<Rightarrow> 'i file_cache" where
  "register_invalidator c invalidator = c\<lparr>invalidators := invalidators c @ [invalidator]\<rparr>"

text \<open>
  \<open>get\<close>: a missing file gives \<open>None\<close>; an entry with the file's mtime is a hit; otherwise
  the file is read and the entry stored, and a failed read gives \<open>None\<close>.
\<close>

definition get :: "(string \<rightharpoonup> disk_file) \<Rightarrow> 'i file_cache \<Rightarrow> string \<Rightarrow> string option \<times> 'i file_cache" where
  "get fs c path =
     (case fs path of
        None \<Rightarrow> (None, c)
      | Some f \<Rightarrow>
          (case entries c path of
             Some entry \<Rightarrow>
               (if mtime entry = file_mtime f then (Some (content entry), c)
                else (case f of
                        Text m s \<Rightarrow>
                          (Some s, c\<lparr>entries := (entries c)(path \<mapsto> \<lparr>mtime = m, content = s\<rparr>)\<rparr>)
                      | Undecodable m \<Rightarrow> (None, c)))
           | None \<Rightarrow>
               (case f of
                  Text m s \<Rightarrow>
                    (Some s, c\<lparr>entries := (entries c)(path \<mapsto> \<lparr>mtime = m, content = s\<rparr>)\<rparr>)
                | Undecodable m \<Rightarrow> (None, c))))"

text \<open>The clock reaching time \<open>t\<close>, no task running yet.\<close>

definition tick :: "'i file_cache \<Rightarrow> nat \<Rightarrow> 'i file_cache" where
  "tick c t = c\<lparr>now := max (now c) t\<rparr>"

text \<open>
  \<open>Task.cancel()\<close> on a debounce task: a task in its sleep, or suspended in the call of an
  invalidator, gets a \<open>CancelledError\<close> raised at that point (in the second case inside
  the invalidator, which is taken to let it through); \<open>except Exception\<close> does not catch
  it, so the task ends there, the rest of its body not run. On a task that has ended it
  does nothing.
\<close>

definition set_status :: "'i file_cache \<Rightarrow> nat \<Rightarrow> task_status \<Rightarrow> 'i file_cache" where
  "set_status c tid st = c\<lparr>tasks := (tasks c)[tid := (tasks c ! tid)\<lparr>status := st\<rparr>]\<rparr>"

definition cancel_task :: "'i file_cache \<Rightarrow> nat \<Rightarrow> 'i file_cache" where
  "cancel_task c tid =
     (if tid < length (tasks c)
      then (case status (tasks c ! tid) of
              Sleeping \<Rightarrow> set_status c tid Cancelled
            | Notifying k \<Rightarrow> set_status c tid Cancelled
            | Cancelled \<Rightarrow> c
            | Done \<Rightarrow> c)
      else c)"

text \<open>
  The coroutine \<open>invalidate(path)\<close> has one suspension point, the \<open>await\<close> of the pending
  task it has just cancelled. \<open>invalidate_begin\<close> is the code up to that point: with a
  pending task for the path it cancels the task and suspends (the flag is \<open>True\<close>), and
  without one it does not suspend. \<open>invalidate_resume\<close> is the code after it: a new task
  is created, to sleep for the debounce time, and stored as the pending one of the path.
  Between the two, other coroutines may run.
\<close>

definition invalidate_begin :: "'i file_cache \<Rightarrow> string \<Rightarrow> 'i file_cache \<times> bool" where
  "invalidate_begin c path =
     (case pending_invalidations c path of
        None \<Rightarrow> (c, False)
      | Some tid \<Rightarrow> (cancel_task c tid, True))"

definition invalidate_resume :: "'i file_cache \<Rightarrow> string \<Rightarrow> 'i file_cache" where
  "invalidate_resume c path =
     c\<lparr>tasks := tasks c @ [\<lparr>task_path = path, deadline = now c + debounce_ms c,
                              status = Sleeping\<rparr>],
       pending_invalidations := (pending_invalidations c)(path \<mapsto> length (tasks c))\<rparr>"

text \<open>One call of \<open>invalidate\<close> during which no other coroutine runs.\<close>

definition invalidate :: "'i file_cache \<Rightarrow> string \<Rightarrow> 'i file_cache" where
  "invalidate c path = invalidate_resume (fst (invalidate_begin c path)) path"

text \<open>
  The \<open>for\<close> loop of \<open>_do_invalidate\<close> at index \<open>k\<close> of the invalidator list: with an
  invalidator there, it is called and the task suspends in the call; at the end of the
  list the path is popped from the pending dict and the task is done.
\<close>

definition call_or_finish :: "'i file_cache \<Rightarrow> nat \<Rightarrow> nat \<Rightarrow> 'i file_cache" where
  "call_or_finish c tid k =
     (let t = tasks c ! tid in
      if k < length (invalidators c)
      then (set_status c tid (Notifying k))
             \<lparr>notified := notified c @ [(invalidators c ! k, task_path t, deadline t)]\<rparr>
      else (set_status c tid Done)
             \<lparr>pending_invalidations := (pending_invalidations c)(task_path t := None)\<rparr>)"

text \<open>
  \<open>wake\<close>: the sleep of a task is over (its deadline has come). Under the lock the
  entry of the path, if there is one, is deleted; then the loop over the invalidators
  starts.
\<close>

definition wake :: "'i file_cache \<Rightarrow> nat \<Rightarrow> 'i file_cache" where
  "wake c tid =
     (if tid < length (tasks c) \<and> status (tasks c ! tid) = Sleeping \<and>
         deadline (tasks c ! tid) \<le> now c
      then call_or_finish (c\<lparr>entries := (entries c)(task_path (tasks c ! tid) := None)\<rparr>) tid 0
      else c)"

text \<open>
  \<open>resume\<close>: the invalidator call a task is suspended in comes to its end; \<open>run\<close> says
  how. After a return the loop goes on; an \<open>Exception\<close> is caught and logged, and the
  loop goes on; anything else is not caught and ends the task.
\<close>

definition resume :: "('i \<Rightarrow> string \<Rightarrow> 'e outcome) \<Rightarrow> nat \<Rightarrow> 'i file_cache \<Rightarrow> 'i file_cache" where
  "resume run tid c =
     (if tid < length (tasks c)
      then (case status (tasks c ! tid) of
              Notifying k \<Rightarrow>
                (if k < length (invalidators c)
                 then (case run (invalidators c ! k) (task_path (tasks c ! tid)) of
                         Returned \<Rightarrow> call_or_finish c tid (Suc k)
                       | Raised e \<Rightarrow>
                           call_or_finish
                             (c\<lparr>failed := failed c @
                                  [(invalidators c ! k, task_path (tasks c ! tid))]\<rparr>)
                             tid (Suc k)
                       | RaisedBase \<Rightarrow> set_status c tid Cancelled
                       | RaisedExit \<Rightarrow> set_status c tid Cancelled)
                 else c)
            | Sleeping \<Rightarrow> c
            | Cancelled \<Rightarrow> c
            | Done \<Rightarrow> c)
      else c)"

text \<open>
  \<open>move\<close>: the event loop gives a task one turn, in which the task runs from the point
  where it is suspended to its next suspension point, or to its end. A task whose sleep
  is not over, or which has ended, does nothing in its turn. \<open>run_tasks\<close> gives the
  tasks their turns in the order of a schedule; between these turns no other coroutine
  calls into the cache.
\<close>

definition move :: "('i \<Rightarrow> string \<Rightarrow> 'e outcome) \<Rightarrow> 'i file_cache \<Rightarrow> nat \<Rightarrow> 'i file_cache" where
  "move run c tid =
     (if tid < length (tasks c)
      then (case status (tasks c ! tid) of
              Sleeping \<Rightarrow> wake c tid
            | Notifying k \<Rightarrow> resume run tid c
            | Cancelled \<Rightarrow> c
            | Done \<Rightarrow> c)
      else c)"

definition run_tasks :: "('i \<Rightarrow> string \<Rightarrow> 'e outcome) \<Rightarrow> 'i file_cache \<Rightarrow> nat list \<Rightarrow> 'i file_cache" where
  "run_tasks run c schedule = foldl (move run) c schedule"

text \<open>
  What a task has still to do: the turns it needs to reach its end (one to wake and one
  for every invalidator call to come to its end), and the invalidators it has not called
  yet.
\<close>

definition turns_left :: "'i file_cache \<Rightarrow> nat \<Rightarrow> nat" where
  "turns_left c tid =
     (case status (tasks c ! tid) of
        Sleeping \<Rightarrow> Suc (length (invalidators c))
      | Notifying k \<Rightarrow> length (invalidators c) - k
      | Cancelled \<Rightarrow> 0
      | Done \<Rightarrow> 0)"

definition calls_left :: "'i file_cache \<Rightarrow> nat \<Rightarrow> 'i list" where
  "calls_left c tid =
     (case status (tasks c ! tid) of
        Sleeping \<Rightarrow> invalidators c
      | Notifying k \<Rightarrow> drop (Suc k) (invalidators c)
      | Cancelled \<Rightarrow> []
      | Done \<Rightarrow> [])"

text \<open>
  \<open>fire\<close>: a task is given all the turns it can need, one after the other. \<open>advance\<close>:
  the clock reaches time \<open>t\<close> with no call into the cache meanwhile, and every task is
  run to its end in the order of creation (which is the order of the deadlines, since
  the debounce time is fixed and the clock never goes back).
\<close>

definition fire :: "('i \<Rightarrow> string \<Rightarrow> 'e outcome) \<Rightarrow> 'i file_cache \<Rightarrow> nat \<Rightarrow> 'i file_cache" where
  "fire run c tid = run_tasks run c (replicate (Suc (length (invalidators c))) tid)"

definition advance :: "('i \<Rightarrow> string \<Rightarrow> 'e outcome) \<Rightarrow> 'i file_cache \<Rightarrow> nat \<Rightarrow> 'i file_cache" where
  "advance run c t = foldl (fire run) (tick c t) [0..<length (tasks c)]"

section \<open>The file watcher's event handler (nanocrew/config/watcher.py)\<close>

text \<open>
  A watchdog event: its \<open>is_directory\<close> flag, its class, and its source path.
\<close>

datatype fs_event_class = FileModifiedEvent | DirModifiedEvent | OtherEvent

record fs_event =
  is_directory :: bool
  event_class :: fs_event_class
  src_path :: string

text \<open>
  \<open>AgentFileEventHandler.on_modified\<close>. The result lists the paths for which a task
  running \<open>cache.invalidate(path)\<close> was created on the event loop, and the agents
  notified in the log. \<open>loop_running\<close> is whether \<open>asyncio.get_running_loop()\<close> succeeds
  in the calling thread; on \<open>RuntimeError\<close> the invalidation is skipped.
  \<open>get_affected_agents\<close> is the router's query.
\<close>

record handled =
  scheduled :: "string list"
  notified_agents :: "string list"

definition on_modified :: "bool \<Rightarrow> (string \<Rightarrow> string list) \<Rightarrow> fs_event \<Rightarrow> handled" where
  "on_modified loop_running get_affected_agents ev =
     (if is_directory ev then \<lparr>scheduled = [], notified_agents = []\<rparr>
      else if event_class ev \<noteq> FileModifiedEvent then \<lparr>scheduled = [], notified_agents = []\<rparr>
      else \<lparr>scheduled = (if loop_running then [src_path ev] else []),
            notified_agents = get_affected_agents (src_path ev)\<rparr>)"


section \<open>The multi-agent manager (nanocrew/agent/manager.py)\<close>

text \<open>
  Modelled from the spec: \<open>AgentsConfig.get_agent\<close> of \<open>nanocrew.config.schema\<close> is not
  among the sources. By the spec it returns the definition of the name, or the definition
  of "main" as fallback if the name is unknown (the docstring of \<open>get_agent_config\<close> in
  registry.py says the same: "AgentDefinition for the named agent, or main agent as
  fallback"); a config without "main" is a fatal configuration error.
\<close>

definition get_agent :: "config \<Rightarrow> string \<Rightarrow> exn + agent_definition" where
  "get_agent cfg agent_name =
     (case registry cfg agent_name of
        Some d \<Rightarrow> Inr d
      | None \<Rightarrow> (case registry cfg ''main'' of Some d \<Rightarrow> Inr d | None \<Rightarrow> Inl KeyError))"

text \<open>
  What a call into the manager finds around it: the default config \<open>Config()\<close>, whether
  an event loop is running in the calling thread, the config file on disk, whether
  \<open>_create_agent_loop\<close> succeeds in making directories and files, and
  \<open>Path.expanduser\<close> (\<open>None\<close> where it raises).
\<close>

record world =
  w_default_config :: config
  w_loop_running :: bool
  w_config_file :: disk
  w_creatable :: bool
  w_expanduser :: "string \<Rightarrow> string option"

text \<open>The parameters an \<open>AgentLoop\<close> is constructed with that come from the agent.\<close>

record agent_loop =
  loop_agent_name :: string
  loop_workspace :: string
  loop_max_iterations :: int
  loop_memory_window :: int

text \<open>
  The manager: its registry, the dict \<open>_loops\<close> in insertion order, the names of the
  loops whose \<open>stop()\<close> was called, and the emission tasks its reload checks created.
\<close>

record manager =
  mregistry :: registry_state
  loops :: "(string \<times> agent_loop) list"
  stopped :: "string list"
  emissions :: "emit_task list"

text \<open>\<open>registry._check_reload()\<close> called from the manager.\<close>

definition reload_check :: "world \<Rightarrow> manager \<Rightarrow> manager" where
  "reload_check w m =
     (case check_reload (w_default_config w) (w_loop_running w) (w_config_file w) (mregistry m) of
        (r, s', task) \<Rightarrow>
          m\<lparr>mregistry := s',
            emissions := emissions m @ (case task of None \<Rightarrow> [] | Some t \<Rightarrow> [t])\<rparr>)"

text \<open>\<open>registry.get_agent_config(name)\<close>: reload check, then \<open>get_agent\<close>.\<close>

definition get_agent_config :: "world \<Rightarrow> manager \<Rightarrow> string \<Rightarrow> (exn + agent_definition) \<times> manager" where
  "get_agent_config w m agent_name =
     (let m' = reload_check w m in (get_agent (rconfig (mregistry m')) agent_name, m'))"

text \<open>
  \<open>_create_agent_loop\<close>: the workspace path is expanded, then the directories and files
  are made; when either fails the exception leaves the function.
\<close>

definition create_agent_loop :: "world \<Rightarrow> string \<Rightarrow> agent_definition \<Rightarrow> exn + agent_loop" where
  "create_agent_loop w agent_name cfg =
     (case w_expanduser w (workspace cfg) of
        None \<Rightarrow> Inl RuntimeError
      | Some ws \<Rightarrow>
          (if w_creatable w
           then Inr \<lparr>loop_agent_name = agent_name, loop_workspace = ws,
                     loop_max_iterations = max_tool_iterations cfg,
                     loop_memory_window = memory_window cfg\<rparr>
           else Inl OSError))"




definition list_active_agents :: "manager \<Rightarrow> string list" where
  "list_active_agents m = map fst (loops m)"


text \<open>
  \<open>_handle_agent_added\<close>: for a name not in \<open>_loops\<close> the loop is made as in \<open>get_loop\<close>;
  any exception on the way is logged and swallowed.
\<close>

definition handle_agent_added :: "world \<Rightarrow> manager \<Rightarrow> string \<Rightarrow> manager" where
  "handle_agent_added w m agent_name =
     (case map_of (loops m) agent_name of
        Some l \<Rightarrow> m
      | None \<Rightarrow>
          (case get_agent_config w m agent_name of
             (Inl e, m1) \<Rightarrow> m1
           | (Inr cfg, m1) \<Rightarrow>
               (case create_agent_loop w agent_name cfg of
                  Inl e \<Rightarrow> m1
                | Inr l \<Rightarrow> m1\<lparr>loops := loops m1 @ [(agent_name, l)]\<rparr>)))"







definition active :: "manager \<Rightarrow> string set" where
  "active m = set (list_active_agents m)"






section \<open>Example configurations\<close>

text \<open>Concrete definitions, configurations and registry states used to run the model.\<close>

definition def_main :: agent_definition where
  "def_main = \<lparr>workspace = ''~/.nanocrew/workspaces/main'', model = ''anthropic/claude-opus-4-5'',
     temperature = 7/10, max_tokens = 8192, max_tool_iterations = 20, memory_window = 50,
     system_prompt = ''''\<rparr>"

definition def_backend :: agent_definition where
  "def_backend = \<lparr>workspace = ''~/.nanocrew/workspaces/backend'', model = ''anthropic/claude-opus-4-5'',
     temperature = 3/10, max_tokens = 8192, max_tool_iterations = 20, memory_window = 50,
     system_prompt = ''''\<rparr>"

definition cfg_main_temp :: config where
  "cfg_main_temp = \<lparr>registry = [''main'' \<mapsto> def_main, ''temp'' \<mapsto> def_backend],
                     bindings = [''feishu:T'' \<mapsto> ''temp'']\<rparr>"

definition cfg_main_only :: config where
  "cfg_main_only = \<lparr>registry = [''main'' \<mapsto> def_main],
                     bindings = [''feishu:T'' \<mapsto> ''temp'']\<rparr>"

definition reg_main_temp :: registry_state where
  "reg_main_temp = \<lparr>rconfig = cfg_main_temp, last_mtime = 1, last_agents = {''main'', ''temp''}\<rparr>"

definition cfg_empty_binding :: config where
  "cfg_empty_binding = \<lparr>registry = [''main'' \<mapsto> def_main, ''backend'' \<mapsto> def_backend],
                     bindings = [''telegram:1'' \<mapsto> '''']\<rparr>"

definition cfg_main_backend :: config where
  "cfg_main_backend = \<lparr>registry = [''main'' \<mapsto> def_main, ''backend'' \<mapsto> def_backend],
                     bindings = Map.empty\<rparr>"

definition reg_main_backend :: registry_state where
  "reg_main_backend = \<lparr>rconfig = cfg_main_backend, last_mtime = 1, last_agents = {''main'', ''backend''}\<rparr>"




text \<open>
  The handlers of the error-isolation test, named by strings, and what they do; and two
  more handlers, one that raises \<open>CancelledError\<close> and one that raises \<open>SystemExit\<close>,
  each subscribed before the working handler.
\<close>

definition test_handlers :: "string subscribers" where
  "test_handlers = subscribe (subscribe Map.empty ''test.event'' ''failing_handler'')
                     ''test.event'' ''working_handler''"

definition cancelled_first :: "string subscribers" where
  "cancelled_first = subscribe (subscribe Map.empty ''test.event'' ''cancelled_handler'')
                       ''test.event'' ''working_handler''"

definition exiting_first :: "string subscribers" where
  "exiting_first = subscribe (subscribe Map.empty ''test.event'' ''exiting_handler'')
                     ''test.event'' ''working_handler''"

definition test_run :: "string \<Rightarrow> string event \<Rightarrow> string outcome" where
  "test_run h ev =
     (if h = ''failing_handler'' then Raised ''Intentional error''
      else if h = ''cancelled_handler'' then RaisedBase
      else if h = ''exiting_handler'' then RaisedExit
      else Returned)"

text \<open>
  A document on disk and a dump of the schema, each with a key that contains a colon
  two levels down, inside a list. And a document on disk, and a dump, in which two keys
  of one dict are converted to the same key.
\<close>

definition doc_example :: "char json" where
  "doc_example =
     JObj [(''agentSettings'',
            JArr [JObj [(''telegram:userName'', JObj [(''maxTokens'', JInt 1)]),
                        (''maxTokens'', JInt 2)]])]"

definition dump_example :: "char json" where
  "dump_example =
     JObj [(''agent_settings'',
            JArr [JObj [(''telegram:user_name'', JObj [(''max_tokens'', JInt 1)]),
                        (''max_tokens'', JInt 2)]])]"

definition doc_two_spellings :: "char json" where
  "doc_two_spellings =
     JObj [(''agentBindings'', JObj [(''feishu:G1'', JStr ''backend'')]),
           (''agent_bindings'', JObj [])]"

definition dump_two_spellings :: "char json" where
  "dump_two_spellings =
     JObj [(''agent_bindings'', JObj [(''feishu:G1'', JStr ''backend'')]),
           (''agentBindings'', JObj [])]"

text \<open>
  A cache with a debounce time of 500 ms and one invalidator, a file-modified event for
  one of the watched files, and invalidators that never raise.
\<close>

definition agents_md :: string where
  "agents_md = ''/ws/AGENTS.md''"

definition cache_example :: "string file_cache" where
  "cache_example = register_invalidator (new_file_cache 500) ''context_builder''"

definition modified_example :: fs_event where
  "modified_example = \<lparr>is_directory = False, event_class = FileModifiedEvent, src_path = agents_md\<rparr>"

definition always_returns :: "string \<Rightarrow> string \<Rightarrow> string outcome" where
  "always_returns i p = Returned"

text \<open>
  Three calls of \<open>invalidate\<close> for the same path at time 0, then the clock reaching
  2000 ms. In the first run the second and the third call overlap: the first call finds
  nothing pending and creates its task without suspending; the second cancels that task
  and suspends in its \<open>await\<close>; the third, started before the cancelled task has
  finished, finds the same task still pending, cancels it again and suspends as well;
  then both resume, one after the other. In the second run each call returns before the
  next one starts.
\<close>

definition three_overlapping_calls :: "string file_cache" where
  "three_overlapping_calls =
     (let c1 = invalidate cache_example agents_md;
          c2 = fst (invalidate_begin c1 agents_md);
          c3 = fst (invalidate_begin c2 agents_md);
          c4 = invalidate_resume c3 agents_md;
          c5 = invalidate_resume c4 agents_md
      in advance always_returns c5 2000)"

definition three_sequential_calls :: "string file_cache" where
  "three_sequential_calls =
     (let c1 = invalidate cache_example agents_md;
          c2 = invalidate c1 agents_md;
          c3 = invalidate c2 agents_md
      in advance always_returns c3 2000)"

text \<open>
  A cache with two invalidators, the first of which suspends in its \<open>invalidate\<close> (say
  on a lock or on I/O). The path is invalidated at time 0; at 500 ms the task wakes and
  calls the first invalidator; at 510 ms, the task still suspended in that call, the
  path is invalidated again; then the clock reaches 2000 ms.
\<close>

definition cache_two_invalidators :: "string file_cache" where
  "cache_two_invalidators =
     register_invalidator (register_invalidator (new_file_cache 500) ''slow'') ''second''"


text \<open>
  The same cache with a first invalidator whose call, for any path, ends with
  \<open>CancelledError\<close> (which it gets, say, from something it awaits): the path is
  invalidated at time 0 and the clock reaches 2000 ms, with no other call into the cache.
\<close>

definition first_is_cancelled :: "string \<Rightarrow> string \<Rightarrow> string outcome" where
  "first_is_cancelled i p = (if i = ''slow'' then RaisedBase else Returned)"











section \<open>Properties of the registry\<close>

lemma changed_fields_Nil_iff: "changed_fields a b = [] \<longleftrightarrow> \<not> fields_differ a b"
  by (simp add: changed_fields_def fields_differ_def)

lemma changed_fields_same: "changed_fields a a = []"
  by (simp add: changed_fields_def)

lemma detect_updates_ok:
  assumes "common \<subseteq> dom (registry (rconfig s)) \<inter> dom (registry new_config)"
  shows "\<exists>u. detect_updates s new_config common = Inr u \<and>
           dom u = {n \<in> common. case (registry (rconfig s) n, registry new_config n) of
                        (Some a, Some b) \<Rightarrow> fields_differ a b | _ \<Rightarrow> False}"
proof -
  have nok: "\<not> (\<exists>n \<in> common. registry (rconfig s) n = None \<or> registry new_config n = None)"
    using assms by auto
  show ?thesis
    unfolding detect_updates_def using nok
    by (auto simp: dom_def changed_fields_Nil_iff split: option.splits if_splits)
qed


text \<open>
  The tracked name set is the key set of the config from \<open>__init__\<close> on, and a file
  that is not newer than the one loaded changes nothing.
\<close>

lemma check_reload_keeps_names_tracked:
  assumes "last_agents s = dom (registry (rconfig s))"
  shows "last_agents (fst (snd (check_reload dflt lr d s))) =
           dom (registry (rconfig (fst (snd (check_reload dflt lr d s)))))"
  using assms unfolding check_reload_def
  by (auto simp: Let_def split: sum.splits)

lemma registry_init_names_tracked:
  "registry_init dflt lr d given = Inr s \<Longrightarrow> last_agents s = dom (registry (rconfig s))"
proof -
  assume a: "registry_init dflt lr d given = Inr s"
  then obtain c where s: "s = fst (snd (check_reload dflt lr d
                 \<lparr>rconfig = c, last_mtime = 0, last_agents = dom (registry c)\<rparr>))"
    by (auto simp: registry_init_def split: sum.splits)
  show ?thesis
    unfolding s by (rule check_reload_keeps_names_tracked) simp
qed

lemma check_reload_unchanged_file:
  "get_config_mtime d \<le> last_mtime s \<Longrightarrow> check_reload dflt lr d s = (False, s, None)"
  by (simp add: check_reload_def)

text \<open>
  Claim C9. If, after the reload check, the bindings map assigns the session key \<open>S\<close> to
  the empty string, \<open>get_agent_name_for_session\<close> returns "main": the falsy binding is
  treated like an absent one.
\<close>

theorem empty_binding_resolves_to_main:
  "bindings (rconfig (fst (snd (check_reload dflt lr d s)))) S = Some [] \<Longrightarrow>
     fst (get_agent_name_for_session dflt lr d s S) = ''main''"
  by (simp add: get_agent_name_for_session_def Let_def)

theorem empty_binding_resolves_to_main_witness:
  "bindings (rconfig (fst (snd (check_reload cfg_main_only False NoFile
       \<lparr>rconfig = cfg_empty_binding, last_mtime = 0, last_agents = {''main'', ''backend''}\<rparr>))))
     ''telegram:1'' = Some [] \<and>
   fst (get_agent_name_for_session cfg_main_only False NoFile
       \<lparr>rconfig = cfg_empty_binding, last_mtime = 0, last_agents = {''main'', ''backend''}\<rparr>
       ''telegram:1'') = ''main''"
proof -
  have h: "bindings (rconfig (fst (snd (check_reload cfg_main_only False NoFile
       \<lparr>rconfig = cfg_empty_binding, last_mtime = 0, last_agents = {''main'', ''backend''}\<rparr>))))
     ''telegram:1'' = Some []"
    by (simp add: check_reload_def cfg_empty_binding_def)
  from h empty_binding_resolves_to_main [OF h] show ?thesis by simp
qed

text \<open>
  The hot-remove scenario: the registry holds \<open>main\<close> and \<open>temp\<close>, the session
  \<open>feishu:T\<close> is bound to \<open>temp\<close>, and the file is rewritten without \<open>temp\<close>, the
  binding untouched.
\<close>

lemma check_reload_hot_remove:
  "check_reload dflt lr (File 2 (Valid cfg_main_only)) reg_main_temp =
     (True, \<lparr>rconfig = cfg_main_only, last_mtime = 2, last_agents = {''main''}\<rparr>,
      if lr then Some \<lparr>added = {}, removed = {''temp''}, updated = Map.empty,
                        task_config = cfg_main_only\<rparr> else None)"
proof -
  have du: "detect_updates reg_main_temp cfg_main_only {''main''} = Inr Map.empty"
    by (auto simp: detect_updates_def reg_main_temp_def cfg_main_temp_def cfg_main_only_def
          changed_fields_same)
  have i: "{''main'', ''temp''} \<inter> {''main''} = {''main''}" by auto
  have dm: "dom (registry cfg_main_only) = {''main''}" by (simp add: cfg_main_only_def)
  have la: "last_agents reg_main_temp = {''main'', ''temp''}" by (simp add: reg_main_temp_def)
  have d1: "{''main''} - {''main'', ''temp''} = ({} :: string set)" by auto
  have d2: "{''main'', ''temp''} - {''main''} = {''temp''}" by auto
  show ?thesis
    unfolding check_reload_def
    by (simp add: Let_def dm la i du d1 d2) (simp add: reg_main_temp_def)
qed

text \<open>
  Claim C3. The claim is that \<open>get_agent_name_for_session\<close> answers with a registered
  name or "main". In the hot-remove scenario the code answers \<open>temp\<close>, which is neither
  in the registry after the reload nor "main": the bound name is returned without a
  look at the registry.
\<close>

theorem unknown_binding_returned_as_is:
  "fst (get_agent_name_for_session dflt lr (File 2 (Valid cfg_main_only)) reg_main_temp ''feishu:T'')
     = ''temp'' \<and>
   ''temp'' \<notin> dom (registry (rconfig (snd (get_agent_name_for_session dflt lr
        (File 2 (Valid cfg_main_only)) reg_main_temp ''feishu:T'')))) \<union> {''main''}"
  unfolding get_agent_name_for_session_def Let_def check_reload_hot_remove
  by (simp add: cfg_main_only_def)

text \<open>
  Claim C1. The claim is that a config file that fails to parse on reload makes the
  reload check return \<open>False\<close> and leaves the in-memory config alone. With \<open>main\<close> and
  \<open>backend\<close> registered and a newer file on disk on which \<open>json.load\<close> raises
  \<open>JSONDecodeError\<close> (or validation raises \<open>ValidationError\<close>), \<open>load_config\<close> swallows
  the error and returns the default config, so the reload check behaves as if the file
  held the default config: it returns \<open>True\<close>, the in-memory config becomes the
  default, \<open>list_agents\<close> answers with the default registry, and with an event loop
  running an emission task is scheduled whose removed set is what the default lacks.
\<close>

theorem unparsable_file_reloads_default:
  "check_reload dflt lr (File 2 (Raises JSONDecodeError)) reg_main_backend =
     check_reload dflt lr (File 2 (Valid dflt)) reg_main_backend \<and>
   check_reload dflt lr (File 2 (Raises ValidationError)) reg_main_backend =
     check_reload dflt lr (File 2 (Valid dflt)) reg_main_backend \<and>
   fst (check_reload dflt lr (File 2 (Raises JSONDecodeError)) reg_main_backend) = True \<and>
   rconfig (fst (snd (check_reload dflt lr (File 2 (Raises JSONDecodeError)) reg_main_backend))) = dflt \<and>
   fst (list_agents dflt lr (File 2 (Raises JSONDecodeError)) reg_main_backend) = registry dflt \<and>
   map_option removed (snd (snd (check_reload dflt lr (File 2 (Raises JSONDecodeError)) reg_main_backend)))
     = (if lr then Some ({''main'', ''backend''} - dom (registry dflt)) else None)"
proof -
  have sub: "last_agents reg_main_backend \<inter> dom (registry dflt)
               \<subseteq> dom (registry (rconfig reg_main_backend)) \<inter> dom (registry dflt)"
    by (auto simp: reg_main_backend_def cfg_main_backend_def)
  from detect_updates_ok [OF sub] obtain u where
    u: "detect_updates reg_main_backend dflt (last_agents reg_main_backend \<inter> dom (registry dflt)) = Inr u"
    by blast
  have m: "\<not> (2::real) \<le> last_mtime reg_main_backend" by (simp add: reg_main_backend_def)
  have cr: "check_reload dflt lr (File 2 (Raises JSONDecodeError)) reg_main_backend =
     (True, reg_main_backend\<lparr>rconfig := dflt, last_mtime := 2, last_agents := dom (registry dflt)\<rparr>,
      if lr then Some \<lparr>added = dom (registry dflt) - last_agents reg_main_backend,
                        removed = last_agents reg_main_backend - dom (registry dflt),
                        updated = u, task_config = dflt\<rparr> else None)"
    unfolding check_reload_def using m u by (simp add: Let_def)
  have e1: "check_reload dflt lr (File 2 (Raises JSONDecodeError)) reg_main_backend =
     check_reload dflt lr (File 2 (Valid dflt)) reg_main_backend"
    by (simp add: check_reload_def)
  have e2: "check_reload dflt lr (File 2 (Raises ValidationError)) reg_main_backend =
     check_reload dflt lr (File 2 (Valid dflt)) reg_main_backend"
    by (simp add: check_reload_def)
  have la: "last_agents reg_main_backend = {''main'', ''backend''}" by (simp add: reg_main_backend_def)
  have rest: "fst (check_reload dflt lr (File 2 (Raises JSONDecodeError)) reg_main_backend) = True \<and>
   rconfig (fst (snd (check_reload dflt lr (File 2 (Raises JSONDecodeError)) reg_main_backend))) = dflt \<and>
   fst (list_agents dflt lr (File 2 (Raises JSONDecodeError)) reg_main_backend) = registry dflt \<and>
   map_option removed (snd (snd (check_reload dflt lr (File 2 (Raises JSONDecodeError)) reg_main_backend)))
     = (if lr then Some ({''main'', ''backend''} - dom (registry dflt)) else None)"
    by (simp add: cr list_agents_def Let_def la)
  from e1 e2 rest show ?thesis by blast
qed










section \<open>Properties of the event bus\<close>

lemma start_all_no_exit:
  "\<forall>h \<in> set hs. run h ev \<noteq> RaisedExit \<Longrightarrow>
     start_all run ev hs = (hs, map (\<lambda>h. run h ev) hs, False)"
proof (induction hs)
  case Nil
  show ?case by simp
next
  case (Cons h hs)
  then show ?case by (cases "run h ev") (simp_all add: safe_call_def)
qed

lemma log_failures_eq:
  "log_failures nm topic hs (map f hs) =
     concat (map (\<lambda>h. case f h of Raised e \<Rightarrow> [(nm h, topic, e)] | _ \<Rightarrow> []) hs)"
proof (induction hs)
  case Nil
  show ?case by simp
next
  case (Cons h hs)
  then show ?case by (cases "f h") simp_all
qed

text \<open>
  Claim C7. The claim is that a handler that fails never keeps another handler of the
  topic from being called and that its failure is logged. With a first handler that
  raises \<open>CancelledError\<close> the second handler is called but nothing is logged; with a
  first handler that raises \<open>SystemExit\<close> the event loop stops and the second handler is
  not called.
\<close>

theorem publish_silent_on_cancel_and_stopped_by_exit:
  "invoked (publish id test_run cancelled_first (Event ''test.event'' ''test'')) =
     [''cancelled_handler'', ''working_handler''] \<and>
   logged (publish id test_run cancelled_first (Event ''test.event'' ''test'')) = [] \<and>
   invoked (publish id test_run exiting_first (Event ''test.event'' ''test'')) =
     [''exiting_handler''] \<and>
   loop_exited (publish id test_run exiting_first (Event ''test.event'' ''test'')) = True"
  by (simp add: publish_def cancelled_first_def exiting_first_def subscribe_def test_run_def
        safe_call_def gather_def)

text \<open>
  Claim C7, amended. Provided no handler of the snapshot raises \<open>SystemExit\<close> or
  \<open>KeyboardInterrupt\<close>: \<open>publish\<close> calls every handler of the snapshot taken for the
  event's topic, in subscription order, also those subscribed after a handler that
  raises; it logs one failure per handler that raises an \<open>Exception\<close>, with the
  handler's name, the topic and the exception (and none for a handler that ends with
  \<open>CancelledError\<close>); nothing is raised to the caller of \<open>publish\<close> and the event loop
  keeps running.
\<close>

theorem publish_isolates_handler_failures:
  assumes "\<forall>h \<in> set (case bus (event_name ev) of None \<Rightarrow> [] | Some hs \<Rightarrow> hs).
             run h ev \<noteq> RaisedExit"
  shows "invoked (publish nm run bus ev) =
           (case bus (event_name ev) of None \<Rightarrow> [] | Some hs \<Rightarrow> hs) \<and>
         propagated (publish nm run bus ev) = None \<and>
         loop_exited (publish nm run bus ev) = False \<and>
         logged (publish nm run bus ev) =
           concat (map (\<lambda>h. case run h ev of Raised e \<Rightarrow> [(nm h, event_name ev, e)] | _ \<Rightarrow> [])
             (case bus (event_name ev) of None \<Rightarrow> [] | Some hs \<Rightarrow> hs))"
proof -
  let ?hs = "case bus (event_name ev) of None \<Rightarrow> [] | Some hs \<Rightarrow> hs"
  have "start_all run ev ?hs = (?hs, map (\<lambda>h. run h ev) ?hs, False)"
    using assms by (intro start_all_no_exit [where hs = ?hs and run = run and ev = ev])
  then show ?thesis
    by (simp add: publish_def Let_def gather_def log_failures_eq)
qed

theorem publish_isolates_handler_failures_witness:
  "test_handlers ''test.event'' = Some [''failing_handler'', ''working_handler''] \<and>
   test_run ''failing_handler'' (Event ''test.event'' ''test'') \<noteq> RaisedExit \<and>
   test_run ''working_handler'' (Event ''test.event'' ''test'') \<noteq> RaisedExit \<and>
   invoked (publish id test_run test_handlers (Event ''test.event'' ''test'')) =
     [''failing_handler'', ''working_handler''] \<and>
   propagated (publish id test_run test_handlers (Event ''test.event'' ''test'')) = None \<and>
   logged (publish id test_run test_handlers (Event ''test.event'' ''test'')) =
     [(''failing_handler'', ''test.event'', ''Intentional error'')]"
proof -
  have b: "test_handlers ''test.event'' = Some [''failing_handler'', ''working_handler'']"
    by (simp add: test_handlers_def subscribe_def)
  have r: "test_run ''failing_handler'' (Event ''test.event'' ''test'') = Raised ''Intentional error''"
          "test_run ''working_handler'' (Event ''test.event'' ''test'') = Returned"
    by (simp_all add: test_run_def)
  have h: "\<forall>h \<in> set (case test_handlers (event_name (Event ''test.event'' ''test'')) of
                          None \<Rightarrow> [] | Some hs \<Rightarrow> hs).
             test_run h (Event ''test.event'' ''test'') \<noteq> RaisedExit"
    by (simp add: b r)
  note th = publish_isolates_handler_failures
    [where bus = test_handlers and ev = "Event ''test.event'' ''test''" and run = test_run
       and nm = id]
  from th [OF h] b r show ?thesis by simp
qed

text \<open>Publishing to a topic without subscribers calls nothing and raises nothing.\<close>

lemma publish_without_subscribers:
  "bus (event_name ev) = None \<Longrightarrow>
     publish nm run bus ev =
       \<lparr>invoked = [], logged = [], propagated = None, loop_exited = False\<rparr>"
  by (simp add: publish_def)

section \<open>Properties of the key conversion\<close>

lemma of_char_less: "(of_char c :: nat) < 256"
proof -
  have "(of_char c :: nat) mod 256 = of_char c" by simp
  then show ?thesis by (metis mod_less_divisor zero_less_numeral)
qed

lemma camel_to_snake_example:
  "camel_to_snake ascii_methods ''restrictToWorkspace'' = ''restrict_to_workspace''"
  by code_simp

lemma snake_to_camel_example:
  "snake_to_camel ascii_methods ''max_tool_iterations'' = ''maxToolIterations''"
  by code_simp

lemma of_char_ascii_lower:
  "ascii_isupper c \<Longrightarrow> of_char (ascii_lower c) = (of_char c :: nat) + 32"
  by (simp add: ascii_lower_def ascii_isupper_def)

lemma of_char_ascii_upper:
  assumes "ascii_islower c"
  shows "of_char (ascii_upper c) = (of_char c :: nat) - 32"
proof -
  have "(of_char c :: nat) - 32 < 256" using of_char_less [of c] by arith
  then have "((of_char c :: nat) - 32) mod 256 = of_char c - 32" by (rule mod_less)
  with assms show ?thesis by (simp add: ascii_upper_def)
qed

lemma ascii_lower_not_colon: "c \<noteq> CHR '':'' \<Longrightarrow> ascii_lower c \<noteq> CHR '':''"
proof
  assume c: "c \<noteq> CHR '':''" and l: "ascii_lower c = CHR '':''"
  show False
  proof (cases "ascii_isupper c")
    case True
    then have "(of_char (ascii_lower c) :: nat) = of_char c + 32" by (rule of_char_ascii_lower)
    with l True show False by (simp add: ascii_isupper_def)
  next
    case False
    with l c show False by (simp add: ascii_lower_def)
  qed
qed

lemma ascii_upper_not_colon: "c \<noteq> CHR '':'' \<Longrightarrow> ascii_upper c \<noteq> CHR '':''"
proof
  assume c: "c \<noteq> CHR '':''" and l: "ascii_upper c = CHR '':''"
  show False
  proof (cases "ascii_islower c")
    case True
    then have "(of_char (ascii_upper c) :: nat) = of_char c - 32" by (rule of_char_ascii_upper)
    with l have "(of_char c :: nat) - 32 = 58" by simp
    moreover from True have "97 \<le> (of_char c :: nat)" by (simp add: ascii_islower_def)
    ultimately show False by arith
  next
    case False
    with l c show False by (simp add: ascii_upper_def)
  qed
qed

lemma ascii_lower_colon: "ascii_lower (CHR '':'') = CHR '':''"
  by (simp add: ascii_lower_def ascii_isupper_def)

lemma ascii_upper_colon: "ascii_upper (CHR '':'') = CHR '':''"
  by (simp add: ascii_upper_def ascii_islower_def)

lemma colon_eq_ascii_lower: "CHR '':'' = ascii_lower c \<longleftrightarrow> c = CHR '':''"
  by (metis ascii_lower_not_colon ascii_lower_colon)

lemma colon_eq_ascii_upper: "CHR '':'' = ascii_upper c \<longleftrightarrow> c = CHR '':''"
  by (metis ascii_upper_not_colon ascii_upper_colon)

lemma ascii_title_from_no_colon:
  "CHR '':'' \<notin> set s \<Longrightarrow> CHR '':'' \<notin> set (ascii_title_from b s)"
  by (induction s arbitrary: b) (auto simp: colon_eq_ascii_lower colon_eq_ascii_upper)

text \<open>The ASCII methods keep the colon apart.\<close>

lemma colon_safe_ascii: "colon_safe ascii_methods"
proof -
  have 1: "underscore ascii_methods \<noteq> colon ascii_methods"
    by (simp add: ascii_methods_def)
  have 2: "\<forall>c. c \<noteq> colon ascii_methods \<longrightarrow> colon ascii_methods \<notin> set (lower ascii_methods c)"
    by (simp add: ascii_methods_def colon_eq_ascii_lower)
  have 3: "\<forall>s. colon ascii_methods \<notin> set s \<longrightarrow> colon ascii_methods \<notin> set (title ascii_methods s)"
    by (simp add: ascii_methods_def ascii_title_def ascii_title_from_no_colon)
  from 1 2 3 show ?thesis unfolding colon_safe_def by (intro conjI)
qed

lemma colon_safeD:
  assumes "colon_safe u"
  shows "underscore u \<noteq> colon u"
    and "c \<noteq> colon u \<Longrightarrow> colon u \<notin> set (lower u c)"
    and "colon u \<notin> set s \<Longrightarrow> colon u \<notin> set (title u s)"
  using assms by (simp_all add: colon_safe_def)

lemma camel_to_snake_from_no_colon:
  assumes "colon_safe u"
  shows "colon u \<notin> set k \<Longrightarrow> colon u \<notin> set (camel_to_snake_from u i k)"
proof (induction k arbitrary: i)
  case Nil
  show ?case by simp
next
  case (Cons c cs)
  from Cons.prems have c: "c \<noteq> colon u" and cs: "colon u \<notin> set cs" by auto
  from colon_safeD(1) [OF assms] colon_safeD(2) [OF assms c] Cons.IH [OF cs, of "Suc i"]
  show ?case by simp
qed

lemma camel_to_snake_no_colon:
  "colon_safe u \<Longrightarrow> \<not> has_colon u k \<Longrightarrow> \<not> has_colon u (camel_to_snake u k)"
  by (simp add: camel_to_snake_def has_colon_def camel_to_snake_from_no_colon)

lemma split_chars: "w \<in> set (split sep s) \<Longrightarrow> set w \<subseteq> set s"
proof (induction s arbitrary: w)
  case Nil
  then show ?case by simp
next
  case (Cons c cs)
  show ?case
  proof (cases "c = sep")
    case True
    with Cons show ?thesis by auto
  next
    case False
    show ?thesis
    proof (cases "split sep cs")
      case Nil
      with Cons.prems False show ?thesis by simp
    next
      case (Cons w0 ws)
      with Cons.prems False have "w = c # w0 \<or> w \<in> set ws" by simp
      then show ?thesis
      proof
        assume "w = c # w0"
        moreover have "set w0 \<subseteq> set cs" using Cons.IH [of w0] Cons by simp
        ultimately show ?thesis by auto
      next
        assume "w \<in> set ws"
        then have "set w \<subseteq> set cs" using Cons.IH [of w] Cons by simp
        then show ?thesis by auto
      qed
    qed
  qed
qed

lemma split_no_colon:
  assumes "\<not> has_colon u s" and "w \<in> set (split sep s)"
  shows "\<not> has_colon u w"
  using split_chars [OF assms(2)] assms(1) by (auto simp: has_colon_def)

lemma snake_to_camel_no_colon:
  assumes "colon_safe u" and "\<not> has_colon u k"
  shows "\<not> has_colon u (snake_to_camel u k)"
proof (cases "split (underscore u) k")
  case Nil
  then show ?thesis by (simp add: snake_to_camel_def has_colon_def)
next
  case (Cons first others)
  have f: "\<not> has_colon u first"
    using split_no_colon [OF assms(2), of first "underscore u"] Cons by simp
  have o: "\<And>w. w \<in> set others \<Longrightarrow> \<not> has_colon u (title u w)"
  proof -
    fix w assume "w \<in> set others"
    then have "\<not> has_colon u w"
      using split_no_colon [OF assms(2), of w "underscore u"] Cons by simp
    then show "\<not> has_colon u (title u w)"
      using colon_safeD(3) [OF assms(1), of w] by (simp add: has_colon_def)
  qed
  show ?thesis
    using f o by (auto simp: snake_to_camel_def Cons has_colon_def)
qed

text \<open>
  A key with a colon is assigned under itself, and no other key is assigned under it.
\<close>

lemma snake_key_colon:
  assumes "colon_safe u" and "has_colon u k"
  shows "snake_key u k = k" and "snake_key u k' = k \<Longrightarrow> k' = k"
  using assms camel_to_snake_no_colon [of u k'] by (simp_all add: snake_key_def split: if_splits)

lemma camel_key_colon:
  assumes "colon_safe u" and "has_colon u k"
  shows "camel_key u k = k" and "camel_key u k' = k \<Longrightarrow> k' = k"
  using assms snake_to_camel_no_colon [of u k'] by (simp_all add: camel_key_def split: if_splits)

lemma snake_key_keeps_colon:
  "colon_safe u \<Longrightarrow> has_colon u (snake_key u k) \<Longrightarrow> snake_key u k = k"
  using camel_to_snake_no_colon [of u k] by (simp add: snake_key_def split: if_splits)

lemma camel_key_keeps_colon:
  "colon_safe u \<Longrightarrow> has_colon u (camel_key u k) \<Longrightarrow> camel_key u k = k"
  using snake_to_camel_no_colon [of u k] by (simp add: camel_key_def split: if_splits)

lemma convert_keys_obj:
  "convert_keys u (JObj kvs) =
     JObj (dict_of_items (map (\<lambda>(k, v). (snake_key u k, convert_keys u v)) kvs))"
  by (simp add: snake_key_def)

lemma convert_to_camel_obj:
  "convert_to_camel u (JObj kvs) =
     JObj (dict_of_items (map (\<lambda>(k, v). (camel_key u k, convert_to_camel u v)) kvs))"
  by (simp add: camel_key_def)

lemma map_of_dict_set: "map_of (dict_set kvs k v) = (map_of kvs)(k \<mapsto> v)"
  by (induction kvs) (auto simp: fun_eq_iff)

lemma keys_dict_set: "fst ` set (dict_set kvs k v) = insert k (fst ` set kvs)"
proof -
  have "dom (map_of (dict_set kvs k v)) = insert k (dom (map_of kvs))"
    by (simp add: map_of_dict_set)
  then show ?thesis by (simp add: dom_map_of_conv_image_fst)
qed

lemma set_dict_set: "set (dict_set kvs k v) \<subseteq> insert (k, v) (set kvs)"
  by (induction kvs) (auto split: if_splits)

lemma values_dict_set: "snd ` set (dict_set kvs k v) \<subseteq> insert v (snd ` set kvs)"
  using set_dict_set [of kvs k v] by force

lemma foldl_dict_set:
  "map_of (foldl (\<lambda>result kv. dict_set result (fst kv) (snd kv)) acc items) =
     map_of acc ++ map_of (rev items)"
proof (induction items arbitrary: acc)
  case Nil
  show ?case by simp
next
  case (Cons a items)
  have "map_of (dict_set acc (fst a) (snd a)) ++ map_of (rev items) =
        map_of acc ++ (map_of [a] ++ map_of (rev items))"
    by (cases a) (auto simp: map_of_dict_set fun_eq_iff map_add_def split: option.splits)
  then show ?case by (simp add: Cons.IH)
qed

lemma foldl_dict_set_keys:
  "fst ` set (foldl (\<lambda>result kv. dict_set result (fst kv) (snd kv)) acc items) =
     fst ` set acc \<union> fst ` set items"
  by (induction items arbitrary: acc) (auto simp: keys_dict_set)

lemma foldl_dict_set_values:
  "snd ` set (foldl (\<lambda>result kv. dict_set result (fst kv) (snd kv)) acc items) \<subseteq>
     snd ` set acc \<union> snd ` set items"
proof (induction items arbitrary: acc)
  case Nil
  show ?case by simp
next
  case (Cons a items)
  have "snd ` set (dict_set acc (fst a) (snd a)) \<subseteq> insert (snd a) (snd ` set acc)"
    by (rule values_dict_set)
  with Cons.IH [of "dict_set acc (fst a) (snd a)"] show ?case by auto
qed

lemma map_of_dict_of_items: "map_of (dict_of_items items) = map_of (rev items)"
  by (simp add: dict_of_items_def foldl_dict_set)

lemma keys_dict_of_items: "fst ` set (dict_of_items items) = fst ` set items"
  by (simp add: dict_of_items_def foldl_dict_set_keys)

lemma values_dict_of_items: "snd ` set (dict_of_items items) \<subseteq> snd ` set items"
  using foldl_dict_set_values [of "[]" items] by (simp add: dict_of_items_def)

text \<open>
  In the dict built from the converted items of a dict, the value of a key that no other
  key is converted to is found under the converted key, converted.
\<close>

lemma map_of_rev_converted:
  assumes "distinct (map fst kvs)"
      and "\<And>k'. k' \<in> fst ` set kvs \<Longrightarrow> ck k' = ck k \<Longrightarrow> k' = k"
  shows "map_of (rev (map (\<lambda>(k', v). (ck k', f v)) kvs)) (ck k) = map_option f (map_of kvs k)"
  using assms
proof (induction kvs)
  case Nil
  show ?case by simp
next
  case (Cons a kvs)
  obtain k0 v0 where a: "a = (k0, v0)" by (cases a)
  from Cons.prems(1) have d: "distinct (map fst kvs)" and nin: "k0 \<notin> fst ` set kvs"
    by (auto simp: a)
  have c: "\<And>k'. k' \<in> fst ` set kvs \<Longrightarrow> ck k' = ck k \<Longrightarrow> k' = k"
    using Cons.prems(2) by auto
  show ?case
  proof (cases "k0 = k")
    case True
    have "ck k \<notin> fst ` set (rev (map (\<lambda>(k', v). (ck k', f v)) kvs))"
    proof
      assume "ck k \<in> fst ` set (rev (map (\<lambda>(k', v). (ck k', f v)) kvs))"
      then obtain k' v where kv: "(k', v) \<in> set kvs" and e: "ck k' = ck k" by auto
      from kv have "k' \<in> fst ` set kvs" by force
      with c e have "k \<in> fst ` set kvs" by blast
      with nin True show False by simp
    qed
    then have "map_of (rev (map (\<lambda>(k', v). (ck k', f v)) kvs)) (ck k) = None"
      by (simp add: map_of_eq_None_iff)
    then show ?thesis by (simp add: a True map_add_def)
  next
    case False
    then have "ck k0 \<noteq> ck k" using Cons.prems(2) [of k0] by (auto simp: a)
    then show ?thesis
      using Cons.IH [OF d c] False by (simp add: a map_add_def split: option.splits)
  qed
qed

lemma dict_get_converted:
  assumes "distinct (map fst kvs)"
      and "list_all (\<lambda>k'. ck k' = ck k \<longrightarrow> k' = k) (map fst kvs)"
  shows "dict_get (dict_of_items (map (\<lambda>(k', v). (ck k', f v)) kvs)) (ck k) =
           map_option f (dict_get kvs k)"
proof -
  have "\<And>k'. k' \<in> fst ` set kvs \<Longrightarrow> ck k' = ck k \<Longrightarrow> k' = k"
    using assms(2) by (auto simp: list_all_iff)
  from map_of_rev_converted [where f = f, OF assms(1) this]
  show ?thesis by (simp add: dict_get_def map_of_dict_of_items rev_map)
qed

text \<open>
  Both converters go through a document in the same way. For any function that does,
  what is found in a document at the end of an unambiguous path is found, converted, in
  the converted document at the end of the converted path.
\<close>

lemma lookup_converted:
  assumes obj: "\<And>kvs. f (JObj kvs) = JObj (dict_of_items (map (\<lambda>(k, v). (ck k, f v)) kvs))"
      and arr: "\<And>items. f (JArr items) = JArr (map f items)"
  shows "is_document d \<Longrightarrow> unambiguous ck d path \<Longrightarrow> lookup d path = Some v \<Longrightarrow>
           lookup (f d) (converted_path ck path) = Some (f v)"
proof (induction path arbitrary: d)
  case Nil
  then show ?case by (simp add: converted_path_def)
next
  case (Cons s path)
  show ?case
  proof (cases s)
    case (Key k)
    show ?thesis
    proof (cases d)
      case (JObj kvs)
      from Cons.prems(3) obtain w where w: "dict_get kvs k = Some w" and l: "lookup w path = Some v"
        by (auto simp: Key JObj split: option.splits)
      from w have "(k, w) \<in> set kvs" by (simp add: dict_get_def map_of_SomeD)
      then have "w \<in> set (map snd kvs)" by force
      with Cons.prems(1) have dw: "is_document w" by (auto simp: JObj list_all_iff)
      from Cons.prems(1) have dist: "distinct (map fst kvs)" by (simp add: JObj)
      from Cons.prems(2) have col: "list_all (\<lambda>k'. ck k' = ck k \<longrightarrow> k' = k) (map fst kvs)"
        and uw: "unambiguous ck w path"
        by (simp_all add: Key JObj w)
      have "dict_get (dict_of_items (map (\<lambda>(k', v). (ck k', f v)) kvs)) (ck k) = Some (f w)"
        using dict_get_converted [where f = f and ck = ck, OF dist col] by (simp add: w)
      moreover have "lookup (f w) (converted_path ck path) = Some (f v)"
        by (rule Cons.IH [OF dw uw l])
      ultimately show ?thesis by (simp add: Key JObj obj converted_path_def)
    qed (use Cons.prems(3) Key in simp_all)
  next
    case (Index i)
    show ?thesis
    proof (cases d)
      case (JArr items)
      from Cons.prems(3) have i: "i < length items" and l: "lookup (items ! i) path = Some v"
        by (auto simp: Index JArr split: if_splits)
      from Cons.prems(1) i have di: "is_document (items ! i)" by (simp add: JArr list_all_length)
      from Cons.prems(2) i have ui: "unambiguous ck (items ! i) path" by (simp add: Index JArr)
      have "lookup (f (items ! i)) (converted_path ck path) = Some (f v)"
        by (rule Cons.IH [OF di ui l])
      then show ?thesis using i by (simp add: Index JArr arr converted_path_def)
    qed (use Cons.prems(3) Index in simp_all)
  qed
qed

text \<open>
  A step by a key that is assigned under itself, and under which no other key is
  assigned, keeps a path unambiguous.
\<close>

lemma unambiguous_snoc:
  assumes "ck k = k" and "\<And>k'. ck k' = k \<Longrightarrow> k' = k"
  shows "unambiguous ck d path \<Longrightarrow> unambiguous ck d (path @ [Key k])"
proof (induction path arbitrary: d)
  case Nil
  show ?case
    using assms by (cases d) (auto simp: list_all_iff split: option.splits)
next
  case (Cons s path)
  show ?case
  proof (cases s)
    case (Key k0)
    show ?thesis
    proof (cases d)
      case (JObj kvs)
      with Cons.prems Key Cons.IH show ?thesis by (auto split: option.splits)
    qed (simp_all add: Key)
  next
    case (Index i)
    show ?thesis
    proof (cases d)
      case (JArr items)
      with Cons.prems Index Cons.IH show ?thesis by auto
    qed (simp_all add: Index)
  qed
qed

lemma converted_path_snoc:
  "ck k = k \<Longrightarrow> converted_path ck (path @ [Key k]) = converted_path ck path @ [Key k]"
  by (simp add: converted_path_def)

lemma convert_keys_lookup_colon:
  assumes "colon_safe u" and "is_document d" and "has_colon u k"
    and "unambiguous (snake_key u) d path" and "lookup d (path @ [Key k]) = Some v"
  shows "lookup (convert_keys u d) (converted_path (snake_key u) path @ [Key k]) =
           Some (convert_keys u v)"
proof -
  have un: "unambiguous (snake_key u) d (path @ [Key k])"
    using snake_key_colon [OF assms(1,3)] assms(4) by (rule unambiguous_snoc)
  have "lookup (convert_keys u d) (converted_path (snake_key u) (path @ [Key k])) =
          Some (convert_keys u v)"
    by (rule lookup_converted [where f = "convert_keys u" and ck = "snake_key u",
          OF convert_keys_obj _ assms(2) un assms(5)]) simp
  then show ?thesis
    by (simp add: converted_path_snoc snake_key_colon(1) [OF assms(1,3)])
qed

lemma convert_to_camel_lookup_colon:
  assumes "colon_safe u" and "is_document d" and "has_colon u k"
    and "unambiguous (camel_key u) d path" and "lookup d (path @ [Key k]) = Some v"
  shows "lookup (convert_to_camel u d) (converted_path (camel_key u) path @ [Key k]) =
           Some (convert_to_camel u v)"
proof -
  have un: "unambiguous (camel_key u) d (path @ [Key k])"
    using camel_key_colon [OF assms(1,3)] assms(4) by (rule unambiguous_snoc)
  have "lookup (convert_to_camel u d) (converted_path (camel_key u) (path @ [Key k])) =
          Some (convert_to_camel u v)"
    by (rule lookup_converted [where f = "convert_to_camel u" and ck = "camel_key u",
          OF convert_to_camel_obj _ assms(2) un assms(5)]) simp
  then show ?thesis
    by (simp add: converted_path_snoc camel_key_colon(1) [OF assms(1,3)])
qed

lemma all_keys_converted_obj:
  assumes ih: "\<And>k v. (k, v) \<in> set kvs \<Longrightarrow> {k' \<in> all_keys (f v). P k'} \<subseteq> all_keys v"
      and ck: "\<And>k. P (ck k) \<Longrightarrow> ck k = k"
  shows "{k' \<in> all_keys (JObj (dict_of_items (map (\<lambda>(k, v). (ck k, f v)) kvs))). P k'}
           \<subseteq> all_keys (JObj kvs)"
proof
  fix x
  let ?items = "map (\<lambda>(k, v). (ck k, f v)) kvs"
  assume "x \<in> {k' \<in> all_keys (JObj (dict_of_items ?items)). P k'}"
  then have x: "x \<in> all_keys (JObj (dict_of_items ?items))" and c: "P x" by auto
  from x consider (key) "x \<in> fst ` set (dict_of_items ?items)"
    | (deep) w where "w \<in> snd ` set (dict_of_items ?items)" "x \<in> all_keys w"
    by auto
  then show "x \<in> all_keys (JObj kvs)"
  proof cases
    case key
    then have "x \<in> fst ` set ?items" by (simp add: keys_dict_of_items)
    then obtain k v where kv: "(k, v) \<in> set kvs" and "x = ck k" by auto
    with c ck have "x = k" by auto
    with kv show ?thesis by force
  next
    case deep
    from deep(1) values_dict_of_items [of ?items] have "w \<in> snd ` set ?items" by blast
    then obtain k v where kv: "(k, v) \<in> set kvs" and "w = f v" by auto
    with deep(2) c ih [OF kv] have "x \<in> all_keys v" by auto
    with kv show ?thesis by force
  qed
qed

lemma convert_keys_colon_keys:
  "colon_safe u \<Longrightarrow> {k \<in> all_keys (convert_keys u d). has_colon u k} \<subseteq> all_keys d"
proof (induction u d rule: convert_keys.induct)
  case (1 u kvs)
  have ck: "\<And>k. has_colon u (snake_key u k) \<Longrightarrow> snake_key u k = k"
    by (rule snake_key_keeps_colon [OF "1.prems"])
  have ih: "\<And>k v. (k, v) \<in> set kvs \<Longrightarrow>
              {k' \<in> all_keys (convert_keys u v). has_colon u k'} \<subseteq> all_keys v"
    using "1.IH" "1.prems" by blast
  from all_keys_converted_obj [where f = "convert_keys u" and ck = "snake_key u"
         and P = "has_colon u" and kvs = kvs, OF ih ck]
  show ?case by (simp only: convert_keys_obj)
next
  case (2 u items)
  then show ?case by auto
qed auto

lemma convert_to_camel_colon_keys:
  "colon_safe u \<Longrightarrow> {k \<in> all_keys (convert_to_camel u d). has_colon u k} \<subseteq> all_keys d"
proof (induction u d rule: convert_to_camel.induct)
  case (1 u kvs)
  have ck: "\<And>k. has_colon u (camel_key u k) \<Longrightarrow> camel_key u k = k"
    by (rule camel_key_keeps_colon [OF "1.prems"])
  have ih: "\<And>k v. (k, v) \<in> set kvs \<Longrightarrow>
              {k' \<in> all_keys (convert_to_camel u v). has_colon u k'} \<subseteq> all_keys v"
    using "1.IH" "1.prems" by blast
  from all_keys_converted_obj [where f = "convert_to_camel u" and ck = "camel_key u"
         and P = "has_colon u" and kvs = kvs, OF ih ck]
  show ?case by (simp only: convert_to_camel_obj)
next
  case (2 u items)
  then show ?case by auto
qed auto

text \<open>
  Claim C8. The claim is that the conversions leave every key that contains a colon
  unchanged, at every nesting depth. A document on disk that spells one key in both
  ways, \<open>agentBindings\<close> and \<open>agent_bindings\<close>, has both keys converted to
  \<open>agent_bindings\<close> on load; the value of the second replaces that of the first, and the
  key \<open>feishu:G1\<close> under the first is in the converted document no more. The same
  happens on save with the two keys in the other order.
\<close>

theorem colon_key_lost_under_converging_keys:
  "is_document doc_two_spellings \<and>
   lookup doc_two_spellings [Key ''agentBindings'', Key ''feishu:G1''] = Some (JStr ''backend'') \<and>
   convert_keys ascii_methods doc_two_spellings = JObj [(''agent_bindings'', JObj [])] \<and>
   ''feishu:G1'' \<notin> all_keys (convert_keys ascii_methods doc_two_spellings) \<and>
   is_document dump_two_spellings \<and>
   lookup dump_two_spellings [Key ''agent_bindings'', Key ''feishu:G1''] = Some (JStr ''backend'') \<and>
   convert_to_camel ascii_methods dump_two_spellings = JObj [(''agentBindings'', JObj [])] \<and>
   ''feishu:G1'' \<notin> all_keys (convert_to_camel ascii_methods dump_two_spellings)"
proof -
  have 1: "is_document doc_two_spellings" by code_simp
  have 2: "lookup doc_two_spellings [Key ''agentBindings'', Key ''feishu:G1''] =
             Some (JStr ''backend'')" by code_simp
  have 3: "convert_keys ascii_methods doc_two_spellings = JObj [(''agent_bindings'', JObj [])]"
    by code_simp
  have 4: "''feishu:G1'' \<notin> all_keys (convert_keys ascii_methods doc_two_spellings)"
    unfolding 3 by simp
  have 5: "is_document dump_two_spellings" by code_simp
  have 6: "lookup dump_two_spellings [Key ''agent_bindings'', Key ''feishu:G1''] =
             Some (JStr ''backend'')" by code_simp
  have 7: "convert_to_camel ascii_methods dump_two_spellings = JObj [(''agentBindings'', JObj [])]"
    by code_simp
  have 8: "''feishu:G1'' \<notin> all_keys (convert_to_camel ascii_methods dump_two_spellings)"
    unfolding 7 by simp
  from 1 2 3 4 5 6 7 8 show ?thesis by (intro conjI)
qed

text \<open>
  Claim C8, amended. Take a document and a key \<open>k\<close> that contains a colon, found at the
  end of a path, at any depth, with the value \<open>v\<close>. If in no dict on the path another key
  is converted to the same key as the one the path takes, then the converted document
  has the same key \<open>k\<close> at the end of the converted path, with the converted value: on
  load (\<open>convert_keys\<close>) and on save (\<open>convert_to_camel\<close>). And whatever the document,
  every key with a colon found at any depth of the converted document is a key of the
  document: the converters never make or alter such a key. (Of Python's string methods
  it is taken that lowering or titling text without a colon gives no colon.)
\<close>

theorem colon_keys_pass_through_unchanged:
  assumes "colon_safe u" and "is_document d" and "has_colon u k"
  shows "(unambiguous (snake_key u) d path \<and> lookup d (path @ [Key k]) = Some v \<longrightarrow>
            lookup (convert_keys u d) (converted_path (snake_key u) path @ [Key k]) =
              Some (convert_keys u v)) \<and>
         (unambiguous (camel_key u) d path \<and> lookup d (path @ [Key k]) = Some v \<longrightarrow>
            lookup (convert_to_camel u d) (converted_path (camel_key u) path @ [Key k]) =
              Some (convert_to_camel u v)) \<and>
         {k' \<in> all_keys (convert_keys u d). has_colon u k'} \<subseteq> all_keys d \<and>
         {k' \<in> all_keys (convert_to_camel u d). has_colon u k'} \<subseteq> all_keys d"
proof (intro conjI impI)
  assume "unambiguous (snake_key u) d path \<and> lookup d (path @ [Key k]) = Some v"
  then show "lookup (convert_keys u d) (converted_path (snake_key u) path @ [Key k]) =
               Some (convert_keys u v)"
    using convert_keys_lookup_colon [OF assms] by blast
next
  assume "unambiguous (camel_key u) d path \<and> lookup d (path @ [Key k]) = Some v"
  then show "lookup (convert_to_camel u d) (converted_path (camel_key u) path @ [Key k]) =
               Some (convert_to_camel u v)"
    using convert_to_camel_lookup_colon [OF assms] by blast
next
  show "{k' \<in> all_keys (convert_keys u d). has_colon u k'} \<subseteq> all_keys d"
    by (rule convert_keys_colon_keys [OF assms(1)])
next
  show "{k' \<in> all_keys (convert_to_camel u d). has_colon u k'} \<subseteq> all_keys d"
    by (rule convert_to_camel_colon_keys [OF assms(1)])
qed

theorem colon_keys_pass_through_unchanged_witness:
  "colon_safe ascii_methods \<and>
   is_document doc_example \<and> has_colon ascii_methods ''telegram:userName'' \<and>
   unambiguous (snake_key ascii_methods) doc_example [Key ''agentSettings'', Index 0] \<and>
   lookup doc_example [Key ''agentSettings'', Index 0, Key ''telegram:userName''] =
     Some (JObj [(''maxTokens'', JInt 1)]) \<and>
   lookup (convert_keys ascii_methods doc_example)
     [Key ''agent_settings'', Index 0, Key ''telegram:userName''] =
     Some (JObj [(''max_tokens'', JInt 1)]) \<and>
   is_document dump_example \<and> has_colon ascii_methods ''telegram:user_name'' \<and>
   unambiguous (camel_key ascii_methods) dump_example [Key ''agent_settings'', Index 0] \<and>
   lookup dump_example [Key ''agent_settings'', Index 0, Key ''telegram:user_name''] =
     Some (JObj [(''max_tokens'', JInt 1)]) \<and>
   lookup (convert_to_camel ascii_methods dump_example)
     [Key ''agentSettings'', Index 0, Key ''telegram:user_name''] =
     Some (JObj [(''maxTokens'', JInt 1)])"
proof -
  have d1: "is_document doc_example" by code_simp
  have c1: "has_colon ascii_methods ''telegram:userName''" by code_simp
  have u1: "unambiguous (snake_key ascii_methods) doc_example [Key ''agentSettings'', Index 0]"
    by code_simp
  have l1: "lookup doc_example ([Key ''agentSettings'', Index 0] @ [Key ''telegram:userName'']) =
              Some (JObj [(''maxTokens'', JInt 1)])" by code_simp
  have p1: "converted_path (snake_key ascii_methods) [Key ''agentSettings'', Index 0] =
              [Key ''agent_settings'', Index 0]" by code_simp
  have v1: "convert_keys ascii_methods (JObj [(''maxTokens'', JInt 1)]) =
              JObj [(''max_tokens'', JInt 1)]" by code_simp
  have d2: "is_document dump_example" by code_simp
  have c2: "has_colon ascii_methods ''telegram:user_name''" by code_simp
  have u2: "unambiguous (camel_key ascii_methods) dump_example [Key ''agent_settings'', Index 0]"
    by code_simp
  have l2: "lookup dump_example ([Key ''agent_settings'', Index 0] @ [Key ''telegram:user_name'']) =
              Some (JObj [(''max_tokens'', JInt 1)])" by code_simp
  have p2: "converted_path (camel_key ascii_methods) [Key ''agent_settings'', Index 0] =
              [Key ''agentSettings'', Index 0]" by code_simp
  have v2: "convert_to_camel ascii_methods (JObj [(''max_tokens'', JInt 1)]) =
              JObj [(''maxTokens'', JInt 1)]" by code_simp
  note th1 = colon_keys_pass_through_unchanged
    [where u = ascii_methods and d = doc_example and k = "''telegram:userName''"
       and path = "[Key ''agentSettings'', Index 0]" and v = "JObj [(''maxTokens'', JInt 1)]",
     OF colon_safe_ascii d1 c1, THEN conjunct1, rule_format, OF conjI, OF u1 l1]
  note th2 = colon_keys_pass_through_unchanged
    [where u = ascii_methods and d = dump_example and k = "''telegram:user_name''"
       and path = "[Key ''agent_settings'', Index 0]" and v = "JObj [(''max_tokens'', JInt 1)]",
     OF colon_safe_ascii d2 c2, THEN conjunct2, THEN conjunct1, rule_format, OF conjI, OF u2 l2]
  have r1: "lookup (convert_keys ascii_methods doc_example)
     [Key ''agent_settings'', Index 0, Key ''telegram:userName''] =
     Some (JObj [(''max_tokens'', JInt 1)])"
    using th1 unfolding p1 v1 by simp
  have r2: "lookup (convert_to_camel ascii_methods dump_example)
     [Key ''agentSettings'', Index 0, Key ''telegram:user_name''] =
     Some (JObj [(''maxTokens'', JInt 1)])"
    using th2 unfolding p2 v2 by simp
  have l1': "lookup doc_example [Key ''agentSettings'', Index 0, Key ''telegram:userName''] =
     Some (JObj [(''maxTokens'', JInt 1)])" using l1 by simp
  have l2': "lookup dump_example [Key ''agent_settings'', Index 0, Key ''telegram:user_name''] =
     Some (JObj [(''max_tokens'', JInt 1)])" using l2 by simp
  from colon_safe_ascii d1 c1 u1 l1' r1 d2 c2 u2 l2' r2 show ?thesis by (intro conjI)
qed

section \<open>Properties of the file cache and the watcher's handler\<close>

lemma call_or_finish_frame:
  "invalidators (call_or_finish c tid k) = invalidators c"
  "now (call_or_finish c tid k) = now c"
  "entries (call_or_finish c tid k) = entries c"
  "length (tasks (call_or_finish c tid k)) = length (tasks c)"
  "j \<noteq> tid \<Longrightarrow> tasks (call_or_finish c tid k) ! j = tasks c ! j"
  by (simp_all add: call_or_finish_def set_status_def Let_def)

lemma call_or_finish_self:
  assumes "tid < length (tasks c)"
  shows "tasks (call_or_finish c tid k) ! tid =
           (tasks c ! tid)\<lparr>status := (if k < length (invalidators c) then Notifying k else Done)\<rparr>"
    and "notified (call_or_finish c tid k) =
           notified c @ (if k < length (invalidators c)
                         then [(invalidators c ! k, task_path (tasks c ! tid), deadline (tasks c ! tid))]
                         else [])"
  using assms by (simp_all add: call_or_finish_def set_status_def Let_def)

lemma wake_frame:
  "invalidators (wake c tid) = invalidators c"
  "now (wake c tid) = now c"
  "length (tasks (wake c tid)) = length (tasks c)"
  "j \<noteq> tid \<Longrightarrow> tasks (wake c tid) ! j = tasks c ! j"
  "entries c q = None \<Longrightarrow> entries (wake c tid) q = None"
  by (simp_all add: wake_def call_or_finish_frame)

lemma wake_log: "\<exists>l. notified (wake c tid) = notified c @ l"
  by (simp add: wake_def call_or_finish_self)

lemma resume_frame:
  "invalidators (resume run tid c) = invalidators c"
  "now (resume run tid c) = now c"
  "length (tasks (resume run tid c)) = length (tasks c)"
  "j \<noteq> tid \<Longrightarrow> tasks (resume run tid c) ! j = tasks c ! j"
  "entries (resume run tid c) = entries c"
  by (simp_all add: resume_def call_or_finish_frame set_status_def
        split: task_status.splits outcome.splits)

lemma resume_log: "\<exists>l. notified (resume run tid c) = notified c @ l"
  by (simp add: resume_def call_or_finish_self set_status_def
        split: task_status.splits outcome.splits)

lemma move_frame:
  "invalidators (move run c tid) = invalidators c"
  "now (move run c tid) = now c"
  "length (tasks (move run c tid)) = length (tasks c)"
  "j \<noteq> tid \<Longrightarrow> tasks (move run c tid) ! j = tasks c ! j"
  "entries c q = None \<Longrightarrow> entries (move run c tid) q = None"
  by (simp_all add: move_def wake_frame resume_frame split: task_status.splits)

lemma move_log: "\<exists>l. notified (move run c tid) = notified c @ l"
  using wake_log [of c tid] resume_log [of run tid c]
  by (simp add: move_def split: task_status.splits)

lemma move_sleeping:
  assumes "m < length (tasks c)" and "status (tasks c ! m) = Sleeping"
    and "deadline (tasks c ! m) \<le> now c"
  shows "tasks (move run c m) ! m =
           (tasks c ! m)\<lparr>status := (if 0 < length (invalidators c) then Notifying 0 else Done)\<rparr>"
    and "notified (move run c m) =
           notified c @ (if 0 < length (invalidators c)
                         then [(invalidators c ! 0, task_path (tasks c ! m), deadline (tasks c ! m))]
                         else [])"
    and "entries (move run c m) (task_path (tasks c ! m)) = None"
  using assms by (simp_all add: move_def wake_def call_or_finish_self call_or_finish_frame)

lemma move_notifying:
  assumes "m < length (tasks c)" and "status (tasks c ! m) = Notifying k"
    and "k < length (invalidators c)"
    and "run (invalidators c ! k) (task_path (tasks c ! m)) \<noteq> RaisedBase"
    and "run (invalidators c ! k) (task_path (tasks c ! m)) \<noteq> RaisedExit"
  shows "tasks (move run c m) ! m =
           (tasks c ! m)\<lparr>status := (if Suc k < length (invalidators c) then Notifying (Suc k)
                                    else Done)\<rparr>"
    and "notified (move run c m) =
           notified c @ (if Suc k < length (invalidators c)
                         then [(invalidators c ! Suc k, task_path (tasks c ! m),
                                deadline (tasks c ! m))]
                         else [])"
  using assms
  by (cases "run (invalidators c ! k) (task_path (tasks c ! m))";
      simp add: move_def resume_def call_or_finish_self)+

lemma turns_left_eq:
  "status (tasks c' ! m) = status (tasks c ! m) \<Longrightarrow> invalidators c' = invalidators c \<Longrightarrow>
   turns_left c' m = turns_left c m"
  by (simp add: turns_left_def split: task_status.splits)

lemma calls_left_eq:
  "status (tasks c' ! m) = status (tasks c ! m) \<Longrightarrow> invalidators c' = invalidators c \<Longrightarrow>
   calls_left c' m = calls_left c m"
  by (simp add: calls_left_def split: task_status.splits)

lemma left_simps:
  "status (tasks c ! m) = Sleeping \<Longrightarrow> turns_left c m = Suc (length (invalidators c))"
  "status (tasks c ! m) = Sleeping \<Longrightarrow> calls_left c m = invalidators c"
  "status (tasks c ! m) = Notifying k \<Longrightarrow> turns_left c m = length (invalidators c) - k"
  "status (tasks c ! m) = Notifying k \<Longrightarrow> calls_left c m = drop (Suc k) (invalidators c)"
  "status (tasks c ! m) = Done \<Longrightarrow> turns_left c m = 0"
  "status (tasks c ! m) = Done \<Longrightarrow> calls_left c m = []"
  by (simp_all add: turns_left_def calls_left_def)

text \<open>
  A task that is not cancelled makes progress by its own turns only, whatever the other
  tasks do in theirs: once its sleep is over and it has had the turns it needs, it has
  called every invalidator it had still to call, in order, it is done, and the entry of
  its path is gone.
\<close>

lemma run_tasks_progress:
  "m < length (tasks c) \<Longrightarrow>
   deadline (tasks c ! m) \<le> now c \<Longrightarrow>
   status (tasks c ! m) \<noteq> Cancelled \<Longrightarrow>
   (\<And>k. status (tasks c ! m) = Notifying k \<Longrightarrow> k < length (invalidators c)) \<Longrightarrow>
   (\<And>i. i \<in> set (invalidators c) \<Longrightarrow>
      run i (task_path (tasks c ! m)) \<noteq> RaisedBase \<and>
      run i (task_path (tasks c ! m)) \<noteq> RaisedExit) \<Longrightarrow>
   turns_left c m \<le> count_list schedule m \<Longrightarrow>
   (\<exists>log. notified (run_tasks run c schedule) = notified c @ log \<and>
      subseq (map (\<lambda>i. (i, task_path (tasks c ! m), deadline (tasks c ! m))) (calls_left c m)) log) \<and>
   status (tasks (run_tasks run c schedule) ! m) = Done \<and>
   (status (tasks c ! m) = Sleeping \<or> entries c (task_path (tasks c ! m)) = None \<longrightarrow>
      entries (run_tasks run c schedule) (task_path (tasks c ! m)) = None)"
proof (induction schedule arbitrary: c)
  case Nil
  then show ?case
    by (cases "status (tasks c ! m)") (simp_all add: left_simps run_tasks_def)
next
  case (Cons a schedule)
  let ?c1 = "move run c a"
  let ?p = "task_path (tasks c ! m)"
  let ?d = "deadline (tasks c ! m)"
  let ?f = "\<lambda>i. (i, ?p, ?d)"
  have rt: "run_tasks run c (a # schedule) = run_tasks run ?c1 schedule"
    by (simp add: run_tasks_def)
  have len1: "m < length (tasks ?c1)" using Cons.prems(1) by (simp add: move_frame)
  have inv1: "invalidators ?c1 = invalidators c" by (simp add: move_frame)
  have now1: "now ?c1 = now c" by (simp add: move_frame)
  show ?case
  proof (cases "a = m")
    case False
    then have t1: "tasks ?c1 ! m = tasks c ! m" by (simp add: move_frame)
    have tl: "turns_left ?c1 m \<le> count_list schedule m"
      using Cons.prems(6) False turns_left_eq [of ?c1 m c] by (simp add: t1 inv1)
    have cl: "calls_left ?c1 m = calls_left c m" by (rule calls_left_eq) (simp_all add: t1 inv1)
    from move_log [of run c a] obtain l where l: "notified ?c1 = notified c @ l" by blast
    have ih: "(\<exists>log. notified (run_tasks run ?c1 schedule) = notified ?c1 @ log \<and>
                 subseq (map ?f (calls_left c m)) log) \<and>
              status (tasks (run_tasks run ?c1 schedule) ! m) = Done \<and>
              (status (tasks c ! m) = Sleeping \<or> entries ?c1 ?p = None \<longrightarrow>
                 entries (run_tasks run ?c1 schedule) ?p = None)"
      using Cons.IH [of ?c1] len1 Cons.prems(2,3,4,5) tl
      by (simp add: t1 inv1 now1 cl)
    then obtain log where log: "notified (run_tasks run ?c1 schedule) = notified ?c1 @ log"
      and sub: "subseq (map ?f (calls_left c m)) log" by blast
    have "notified (run_tasks run c (a # schedule)) = notified c @ (l @ log)"
      by (simp add: rt log l)
    moreover have "subseq (map ?f (calls_left c m)) (l @ log)"
      using sub by (rule subseq_drop_many)
    ultimately have A: "\<exists>log. notified (run_tasks run c (a # schedule)) = notified c @ log \<and>
        subseq (map ?f (calls_left c m)) log" by blast
    have B: "status (tasks (run_tasks run c (a # schedule)) ! m) = Done"
      using ih by (simp add: rt)
    have C: "status (tasks c ! m) = Sleeping \<or> entries c ?p = None \<longrightarrow>
               entries (run_tasks run c (a # schedule)) ?p = None"
      using ih move_frame(5) [of c ?p run a] by (auto simp: rt)
    from A B C show ?thesis by blast
  next
    case True
    have cnt: "turns_left c m \<le> Suc (count_list schedule m)"
      using Cons.prems(6) True by simp
    show ?thesis
    proof (cases "status (tasks c ! m)")
      case Sleeping
      note mv = move_sleeping [OF Cons.prems(1) Sleeping Cons.prems(2), of run]
      let ?n = "length (invalidators c)"
      have t1: "task_path (tasks ?c1 ! m) = ?p" "deadline (tasks ?c1 ! m) = ?d"
        "status (tasks ?c1 ! m) = (if 0 < ?n then Notifying 0 else Done)"
        using mv(1) True by simp_all
      have e1: "entries ?c1 ?p = None" using mv(3) True by simp
      have n1: "notified ?c1 = notified c @ (if 0 < ?n then [?f (invalidators c ! 0)] else [])"
        using mv(2) True by simp
      have tl: "turns_left ?c1 m \<le> count_list schedule m"
        using cnt Sleeping by (simp add: turns_left_def t1(3) inv1)
      have ih: "(\<exists>log. notified (run_tasks run ?c1 schedule) = notified ?c1 @ log \<and>
                   subseq (map ?f (calls_left ?c1 m)) log) \<and>
                status (tasks (run_tasks run ?c1 schedule) ! m) = Done \<and>
                entries (run_tasks run ?c1 schedule) ?p = None"
      proof -
        have p2: "deadline (tasks ?c1 ! m) \<le> now ?c1"
          using Cons.prems(2) by (simp add: t1 now1)
        have p3: "status (tasks ?c1 ! m) \<noteq> Cancelled" by (simp add: t1)
        have p4: "\<And>k. status (tasks ?c1 ! m) = Notifying k \<Longrightarrow> k < length (invalidators ?c1)"
          by (simp add: t1 inv1 split: if_splits)
        have p5: "\<And>i. i \<in> set (invalidators ?c1) \<Longrightarrow>
                    run i (task_path (tasks ?c1 ! m)) \<noteq> RaisedBase \<and>
                    run i (task_path (tasks ?c1 ! m)) \<noteq> RaisedExit"
          using Cons.prems(5) by (simp add: t1 inv1)
        from Cons.IH [OF len1 p2 p3 p4 p5 tl] e1 show ?thesis by (simp add: t1)
      qed
      then obtain log where log: "notified (run_tasks run ?c1 schedule) = notified ?c1 @ log"
        and sub: "subseq (map ?f (calls_left ?c1 m)) log" by blast
      have cl: "calls_left c m = invalidators c" using Sleeping by (simp add: left_simps)
      have A: "\<exists>log. notified (run_tasks run c (a # schedule)) = notified c @ log \<and>
          subseq (map ?f (calls_left c m)) log"
      proof (cases "0 < ?n")
        case False
        then show ?thesis using log n1 cl by (simp add: rt)
      next
        case pos: True
        then have split: "invalidators c = invalidators c ! 0 # drop (Suc 0) (invalidators c)"
          by (cases "invalidators c") simp_all
        have cl1: "calls_left ?c1 m = drop (Suc 0) (invalidators c)"
          using pos by (simp add: calls_left_def t1(3) inv1)
        have "subseq (?f (invalidators c ! 0) # map ?f (drop (Suc 0) (invalidators c)))
                (?f (invalidators c ! 0) # log)"
          using sub by (simp add: cl1)
        then have "subseq (map ?f (invalidators c)) (?f (invalidators c ! 0) # log)"
          using split by (metis list.simps(9))
        moreover have "notified (run_tasks run c (a # schedule)) =
                         notified c @ (?f (invalidators c ! 0) # log)"
          using pos by (simp add: rt log n1)
        ultimately show ?thesis using cl by auto
      qed
      from A ih show ?thesis by (simp add: rt)
    next
      case (Notifying k)
      let ?n = "length (invalidators c)"
      have k: "k < ?n" using Cons.prems(4) Notifying by simp
      then have mem: "invalidators c ! k \<in> set (invalidators c)" by simp
      note mv = move_notifying [where run = run and c = c and m = m and k = k,
          OF Cons.prems(1) Notifying k
          Cons.prems(5) [OF mem, THEN conjunct1] Cons.prems(5) [OF mem, THEN conjunct2]]
      have t1: "task_path (tasks ?c1 ! m) = ?p" "deadline (tasks ?c1 ! m) = ?d"
        "status (tasks ?c1 ! m) = (if Suc k < ?n then Notifying (Suc k) else Done)"
        using mv(1) True by simp_all
      have n1: "notified ?c1 =
                  notified c @ (if Suc k < ?n then [?f (invalidators c ! Suc k)] else [])"
        using mv(2) True by simp
      have e1: "entries c ?p = None \<Longrightarrow> entries ?c1 ?p = None"
        by (rule move_frame(5))
      have tl: "turns_left ?c1 m \<le> count_list schedule m"
        using cnt Notifying k by (auto simp add: turns_left_def t1(3) inv1)
      have ih: "(\<exists>log. notified (run_tasks run ?c1 schedule) = notified ?c1 @ log \<and>
                   subseq (map ?f (calls_left ?c1 m)) log) \<and>
                status (tasks (run_tasks run ?c1 schedule) ! m) = Done \<and>
                (entries ?c1 ?p = None \<longrightarrow> entries (run_tasks run ?c1 schedule) ?p = None)"
      proof -
        have p2: "deadline (tasks ?c1 ! m) \<le> now ?c1"
          using Cons.prems(2) by (simp add: t1 now1)
        have p3: "status (tasks ?c1 ! m) \<noteq> Cancelled" by (simp add: t1)
        have p4: "\<And>j. status (tasks ?c1 ! m) = Notifying j \<Longrightarrow> j < length (invalidators ?c1)"
          by (simp add: t1 inv1 split: if_splits)
        have p5: "\<And>i. i \<in> set (invalidators ?c1) \<Longrightarrow>
                    run i (task_path (tasks ?c1 ! m)) \<noteq> RaisedBase \<and>
                    run i (task_path (tasks ?c1 ! m)) \<noteq> RaisedExit"
          using Cons.prems(5) by (simp add: t1 inv1)
        from Cons.IH [OF len1 p2 p3 p4 p5 tl] show ?thesis by (simp add: t1)
      qed
      then obtain log where log: "notified (run_tasks run ?c1 schedule) = notified ?c1 @ log"
        and sub: "subseq (map ?f (calls_left ?c1 m)) log" by blast
      have cl: "calls_left c m = drop (Suc k) (invalidators c)"
        using Notifying by (simp add: left_simps)
      have A: "\<exists>log. notified (run_tasks run c (a # schedule)) = notified c @ log \<and>
          subseq (map ?f (calls_left c m)) log"
      proof (cases "Suc k < ?n")
        case False
        then show ?thesis using log n1 cl by (simp add: rt)
      next
        case more: True
        then have split: "drop (Suc k) (invalidators c) =
                            invalidators c ! Suc k # drop (Suc (Suc k)) (invalidators c)"
          by (simp add: Cons_nth_drop_Suc)
        have cl1: "calls_left ?c1 m = drop (Suc (Suc k)) (invalidators c)"
          using more by (simp add: calls_left_def t1(3) inv1)
        have "subseq (?f (invalidators c ! Suc k) # map ?f (drop (Suc (Suc k)) (invalidators c)))
                (?f (invalidators c ! Suc k) # log)"
          using sub by (simp add: cl1)
        then have "subseq (map ?f (drop (Suc k) (invalidators c)))
                     (?f (invalidators c ! Suc k) # log)"
          using split by (metis list.simps(9))
        moreover have "notified (run_tasks run c (a # schedule)) =
                         notified c @ (?f (invalidators c ! Suc k) # log)"
          using more by (simp add: rt log n1)
        ultimately show ?thesis using cl by auto
      qed
      from A ih e1 Notifying show ?thesis by (simp add: rt)
    next
      case Cancelled
      then show ?thesis using Cons.prems(3) by simp
    next
      case Done
      have c1: "?c1 = c" using True Done Cons.prems(1) by (simp add: move_def)
      have tl: "turns_left c m \<le> count_list schedule m"
        using Done by (simp add: left_simps)
      show ?thesis
        using Cons.IH [of c] Cons.prems(1,2,3,4,5) tl by (simp add: rt c1)
    qed
  qed
qed

lemma cancel_task_frame:
  "length (tasks (cancel_task c tid)) = length (tasks c)"
  "invalidators (cancel_task c tid) = invalidators c"
  "now (cancel_task c tid) = now c"
  "debounce_ms (cancel_task c tid) = debounce_ms c"
  "notified (cancel_task c tid) = notified c"
  "entries (cancel_task c tid) = entries c"
  by (simp_all add: cancel_task_def set_status_def split: task_status.splits)

lemma invalidate_begin_frame:
  "length (tasks (fst (invalidate_begin c p))) = length (tasks c)"
  "invalidators (fst (invalidate_begin c p)) = invalidators c"
  "now (fst (invalidate_begin c p)) = now c"
  "debounce_ms (fst (invalidate_begin c p)) = debounce_ms c"
  "notified (fst (invalidate_begin c p)) = notified c"
  "entries (fst (invalidate_begin c p)) = entries c"
  by (simp_all add: invalidate_begin_def cancel_task_frame split: option.splits)

lemma invalidate_new_task:
  "tasks (invalidate c p) =
     tasks (fst (invalidate_begin c p)) @
       [\<lparr>task_path = p, deadline = now c + debounce_ms c, status = Sleeping\<rparr>]"
  "pending_invalidations (invalidate c p) p = Some (length (tasks c))"
  "invalidators (invalidate c p) = invalidators c"
  "now (invalidate c p) = now c"
  "entries (invalidate c p) = entries c"
  "notified (invalidate c p) = notified c"
  by (simp_all add: invalidate_def invalidate_resume_def invalidate_begin_frame)

lemma invalidate_task:
  "tasks (invalidate c p) ! length (tasks c) =
     \<lparr>task_path = p, deadline = now c + debounce_ms c, status = Sleeping\<rparr>"
  "length (tasks c) < length (tasks (invalidate c p))"
  using invalidate_begin_frame(1) [of c p]
  by (simp_all add: invalidate_new_task(1) nth_append)

text \<open>
  After an \<open>invalidate\<close> call for a path, let the clock reach the deadline of the new
  task and let the pending tasks have their turns in any order, the new task being given
  the turns it needs and no invalidator, called for the path, raising anything that is
  not an \<open>Exception\<close>. Then the entry of the path is gone, the new task is done, and
  among the calls logged since are its calls of every registered invalidator, in the
  order of registration.
\<close>

lemma invalidate_then_run:
  assumes "now c + debounce_ms c \<le> t"
    and "\<forall>i \<in> set (invalidators c). run i p \<noteq> RaisedBase \<and> run i p \<noteq> RaisedExit"
    and "Suc (length (invalidators c)) \<le> count_list schedule (length (tasks c))"
  shows "\<exists>log. notified (run_tasks run (tick (invalidate c p) t) schedule) = notified c @ log \<and>
           subseq (map (\<lambda>i. (i, p, now c + debounce_ms c)) (invalidators c)) log"
    and "entries (run_tasks run (tick (invalidate c p) t) schedule) p = None"
    and "status (tasks (run_tasks run (tick (invalidate c p) t) schedule) ! length (tasks c)) = Done"
proof -
  let ?c' = "tick (invalidate c p) t"
  let ?m = "length (tasks c)"
  have tm: "tasks ?c' ! ?m = \<lparr>task_path = p, deadline = now c + debounce_ms c, status = Sleeping\<rparr>"
    by (simp add: tick_def invalidate_task)
  have len: "?m < length (tasks ?c')" by (simp add: tick_def invalidate_task)
  have inv: "invalidators ?c' = invalidators c" by (simp add: tick_def invalidate_new_task)
  have nt: "notified ?c' = notified c" by (simp add: tick_def invalidate_new_task)
  have p2: "deadline (tasks ?c' ! ?m) \<le> now ?c'"
    using assms(1) by (simp add: tm) (simp add: tick_def invalidate_new_task)
  have p3: "status (tasks ?c' ! ?m) \<noteq> Cancelled" by (simp add: tm)
  have p4: "\<And>k. status (tasks ?c' ! ?m) = Notifying k \<Longrightarrow> k < length (invalidators ?c')"
    by (simp add: tm)
  have p5: "\<And>i. i \<in> set (invalidators ?c') \<Longrightarrow>
              run i (task_path (tasks ?c' ! ?m)) \<noteq> RaisedBase \<and>
              run i (task_path (tasks ?c' ! ?m)) \<noteq> RaisedExit"
    using assms(2) by (simp add: tm inv)
  have p6: "turns_left ?c' ?m \<le> count_list schedule ?m"
    using assms(3) by (simp add: turns_left_def tm inv)
  have cl: "calls_left ?c' ?m = invalidators c" by (simp add: calls_left_def tm inv)
  note pr = run_tasks_progress [where run = run, OF len p2 p3 p4 p5 p6]
  from pr [THEN conjunct1]
  show "\<exists>log. notified (run_tasks run ?c' schedule) = notified c @ log \<and>
           subseq (map (\<lambda>i. (i, p, now c + debounce_ms c)) (invalidators c)) log"
    by (simp add: tm cl nt)
  from pr [THEN conjunct2, THEN conjunct2]
  show "entries (run_tasks run ?c' schedule) p = None" by (simp add: tm)
  from pr [THEN conjunct2, THEN conjunct1]
  show "status (tasks (run_tasks run ?c' schedule) ! ?m) = Done" .
qed

lemma cache_example_facts:
  "entries cache_example agents_md = None"
  "invalidators cache_example = [''context_builder'']"
  "tasks cache_example = []"
  "notified cache_example = []"
  "now cache_example + debounce_ms cache_example = 500"
  by (simp_all add: cache_example_def new_file_cache_def register_invalidator_def)




text \<open>
  Claim C2. The claim is that the handler calls \<open>cache.invalidate(P)\<close> for every
  file-modified event whose path is not a directory, and that the registered invalidators
  then fire for \<open>P\<close>. For such an event delivered in a thread without a running event
  loop, nothing is scheduled. And where the call is scheduled, for a cache with two
  invalidators of which the first ends its call with \<open>CancelledError\<close>, the second
  invalidator is never called: \<open>except Exception\<close> does not catch that exception, and
  the debounce task ends with it.
\<close>

theorem modified_event_without_loop_skips_invalidation:
  "\<not> is_directory modified_example \<and> event_class modified_example = FileModifiedEvent \<and>
   scheduled (on_modified False (\<lambda>p. []) modified_example) = [] \<and>
   scheduled (on_modified True (\<lambda>p. []) modified_example) = [agents_md] \<and>
   invalidators cache_two_invalidators = [''slow'', ''second''] \<and>
   notified (advance first_is_cancelled (invalidate cache_two_invalidators agents_md) 2000) =
     [(''slow'', agents_md, 500)]"
proof -
  have 1: "\<not> is_directory modified_example \<and> event_class modified_example = FileModifiedEvent \<and>
           scheduled (on_modified False (\<lambda>p. []) modified_example) = [] \<and>
           scheduled (on_modified True (\<lambda>p. []) modified_example) = [agents_md]"
    by (simp add: on_modified_def modified_example_def)
  have 2: "invalidators cache_two_invalidators = [''slow'', ''second'']"
    by (simp add: cache_two_invalidators_def new_file_cache_def register_invalidator_def)
  have 3: "notified (advance first_is_cancelled (invalidate cache_two_invalidators agents_md) 2000) =
             [(''slow'', agents_md, 500)]"
    by code_simp
  from 1 2 3 show ?thesis by simp
qed

text \<open>
  Claim C2, amended. For a file-modified event whose path \<open>P\<close> is not a directory, the
  handler schedules \<open>cache.invalidate(P)\<close> exactly when an event loop is running in the
  calling thread. That call, run without another coroutine in between, leaves a sleeping
  task for \<open>P\<close> pending, due one debounce time later. If then the clock gets there and
  the pending tasks have their turns in any order with no call into the cache meanwhile
  (so that the task is not cancelled before its end), the task getting the turns it
  needs and no invalidator raising, for \<open>P\<close>, anything that is not an \<open>Exception\<close>, then
  the entry of \<open>P\<close> is gone and the calls logged since contain one \<open>invalidate(P)\<close> call
  to every registered invalidator, in the order of registration.
\<close>

theorem modified_event_schedules_invalidation:
  assumes "\<not> is_directory ev" and "event_class ev = FileModifiedEvent"
  shows "scheduled (on_modified loop_running aff ev) =
           (if loop_running then [src_path ev] else []) \<and>
         pending_invalidations (invalidate c (src_path ev)) (src_path ev) = Some (length (tasks c)) \<and>
         tasks (invalidate c (src_path ev)) ! length (tasks c) =
           \<lparr>task_path = src_path ev, deadline = now c + debounce_ms c, status = Sleeping\<rparr> \<and>
         ((\<forall>i \<in> set (invalidators c).
              run i (src_path ev) \<noteq> RaisedBase \<and> run i (src_path ev) \<noteq> RaisedExit) \<and>
          Suc (length (invalidators c)) \<le> count_list schedule (length (tasks c)) \<longrightarrow>
          entries (run_tasks run (tick (invalidate c (src_path ev)) (now c + debounce_ms c)) schedule)
            (src_path ev) = None \<and>
          (\<exists>log. notified (run_tasks run (tick (invalidate c (src_path ev)) (now c + debounce_ms c))
                             schedule) = notified c @ log \<and>
             subseq (map (\<lambda>i. (i, src_path ev, now c + debounce_ms c)) (invalidators c)) log))"
proof -
  have s: "scheduled (on_modified loop_running aff ev) =
           (if loop_running then [src_path ev] else [])"
    using assms by (simp add: on_modified_def)
  have p: "pending_invalidations (invalidate c (src_path ev)) (src_path ev) =
             Some (length (tasks c))"
    by (rule invalidate_new_task(2))
  have t: "tasks (invalidate c (src_path ev)) ! length (tasks c) =
           \<lparr>task_path = src_path ev, deadline = now c + debounce_ms c, status = Sleeping\<rparr>"
    by (rule invalidate_task(1))
  have le: "now c + debounce_ms c \<le> now c + debounce_ms c" by simp
  have r: "(\<forall>i \<in> set (invalidators c).
              run i (src_path ev) \<noteq> RaisedBase \<and> run i (src_path ev) \<noteq> RaisedExit) \<and>
          Suc (length (invalidators c)) \<le> count_list schedule (length (tasks c)) \<longrightarrow>
          entries (run_tasks run (tick (invalidate c (src_path ev)) (now c + debounce_ms c)) schedule)
            (src_path ev) = None \<and>
          (\<exists>log. notified (run_tasks run (tick (invalidate c (src_path ev)) (now c + debounce_ms c))
                             schedule) = notified c @ log \<and>
             subseq (map (\<lambda>i. (i, src_path ev, now c + debounce_ms c)) (invalidators c)) log)"
  proof (intro impI, elim conjE)
    assume a: "\<forall>i \<in> set (invalidators c).
              run i (src_path ev) \<noteq> RaisedBase \<and> run i (src_path ev) \<noteq> RaisedExit"
      and b: "Suc (length (invalidators c)) \<le> count_list schedule (length (tasks c))"
    from invalidate_then_run(2) [where run = run and p = "src_path ev" and c = c, OF le a b]
      invalidate_then_run(1) [where run = run and p = "src_path ev" and c = c, OF le a b]
    show "entries (run_tasks run (tick (invalidate c (src_path ev)) (now c + debounce_ms c)) schedule)
            (src_path ev) = None \<and>
          (\<exists>log. notified (run_tasks run (tick (invalidate c (src_path ev)) (now c + debounce_ms c))
                             schedule) = notified c @ log \<and>
             subseq (map (\<lambda>i. (i, src_path ev, now c + debounce_ms c)) (invalidators c)) log)"
      by (rule conjI)
  qed
  from s p t r show ?thesis by (intro conjI)
qed

theorem modified_event_schedules_invalidation_witness:
  "\<not> is_directory modified_example \<and> event_class modified_example = FileModifiedEvent \<and>
   scheduled (on_modified True (\<lambda>p. []) modified_example) = [agents_md] \<and>
   scheduled (on_modified False (\<lambda>p. []) modified_example) = [] \<and>
   pending_invalidations (invalidate cache_example agents_md) agents_md = Some 0 \<and>
   always_returns ''context_builder'' agents_md \<noteq> RaisedBase \<and>
   always_returns ''context_builder'' agents_md \<noteq> RaisedExit \<and>
   Suc (length (invalidators cache_example)) \<le> count_list [0, 0] (length (tasks cache_example)) \<and>
   entries (run_tasks always_returns (tick (invalidate cache_example agents_md) 500) [0, 0]) agents_md
     = None \<and>
   subseq [(''context_builder'', agents_md, 500)]
     (notified (run_tasks always_returns (tick (invalidate cache_example agents_md) 500) [0, 0]))"
proof -
  have d: "\<not> is_directory modified_example" by (simp add: modified_example_def)
  have k: "event_class modified_example = FileModifiedEvent" by (simp add: modified_example_def)
  have sp: "src_path modified_example = agents_md" by (simp add: modified_example_def)
  have r: "always_returns ''context_builder'' agents_md \<noteq> RaisedBase"
          "always_returns ''context_builder'' agents_md \<noteq> RaisedExit"
    by (simp_all add: always_returns_def)
  have h: "\<forall>i \<in> set (invalidators cache_example).
             always_returns i (src_path modified_example) \<noteq> RaisedBase \<and>
             always_returns i (src_path modified_example) \<noteq> RaisedExit"
    by (simp add: always_returns_def)
  have n: "Suc (length (invalidators cache_example)) \<le>
             count_list [0, 0] (length (tasks cache_example))"
    by (simp add: cache_example_facts)
  note th1 = modified_event_schedules_invalidation
      [OF d k, where loop_running = True and aff = "\<lambda>p. []" and c = cache_example
         and run = always_returns and schedule = "[0, 0]"]
  note th2 = modified_event_schedules_invalidation
      [OF d k, where loop_running = False and aff = "\<lambda>p. []" and c = cache_example
         and run = always_returns and schedule = "[0, 0]"]
  from th1 [THEN conjunct1]
  have a: "scheduled (on_modified True (\<lambda>p. []) modified_example) = [agents_md]"
    by (simp add: sp)
  from th2 [THEN conjunct1]
  have f: "scheduled (on_modified False (\<lambda>p. []) modified_example) = []"
    by simp
  from th1 [THEN conjunct2, THEN conjunct1]
  have b: "pending_invalidations (invalidate cache_example agents_md) agents_md = Some 0"
    by (simp add: sp cache_example_facts)
  note last = th1 [THEN conjunct2, THEN conjunct2, THEN conjunct2, rule_format, OF conjI, OF h n]
  from last [THEN conjunct1]
  have e: "entries (run_tasks always_returns (tick (invalidate cache_example agents_md) 500) [0, 0])
             agents_md = None"
    by (simp add: sp cache_example_facts)
  from last [THEN conjunct2]
  have s: "subseq [(''context_builder'', agents_md, 500)]
     (notified (run_tasks always_returns (tick (invalidate cache_example agents_md) 500) [0, 0]))"
    by (auto simp add: sp cache_example_facts)
  from d k a f b r n e s show ?thesis by blast
qed

text \<open>
  Claim C5. The claim is that any two or more \<open>invalidate(P)\<close> calls within one
  debounce window make the debounced effect fire exactly once. With three calls at
  time 0 of which the last two overlap, two tasks are left sleeping and every
  invalidator is called twice at 500 ms: the second call does suspend, and both resumed
  calls create a task, the later one replacing the earlier one in the pending dict
  without cancelling it. With the same three calls one after the other the invalidator
  is called once.
\<close>

theorem overlapping_invalidations_fire_twice:
  "notified three_overlapping_calls =
     [(''context_builder'', agents_md, 500), (''context_builder'', agents_md, 500)] \<and>
   snd (invalidate_begin (invalidate cache_example agents_md) agents_md) = True \<and>
   notified three_sequential_calls = [(''context_builder'', agents_md, 500)]"
proof -
  have overlapping: "notified three_overlapping_calls =
     [(''context_builder'', agents_md, 500), (''context_builder'', agents_md, 500)]"
    by code_simp
  have suspends: "snd (invalidate_begin (invalidate cache_example agents_md) agents_md) = True"
    by code_simp
  have sequential: "notified three_sequential_calls = [(''context_builder'', agents_md, 500)]"
    by code_simp
  from overlapping suspends sequential show ?thesis by blast
qed

section \<open>Properties of the manager\<close>

lemma reload_check_loops: "loops (reload_check w m) = loops m"
  by (simp add: reload_check_def split: prod.splits)


lemma get_agent_config_loops: "loops (snd (get_agent_config w m n)) = loops m"
  by (simp add: get_agent_config_def Let_def reload_check_loops)





lemma active_handle_agent_added_mono: "active m \<subseteq> active (handle_agent_added w m n)"
  using get_agent_config_loops [of w m n]
  by (auto simp: handle_agent_added_def active_def list_active_agents_def
           split: option.splits prod.splits sum.splits)

















lemma active_loops: "active (m\<lparr>loops := ls\<rparr>) = fst ` set ls"
  by (simp add: active_def list_active_agents_def)





end
